theory Spec2Isabelle
  imports Main
begin

section \<open>JavaScript strings and the regular expressions of the resolver\<close>

text \<open>The three patterns of the resolver are sequences of character classes, each taken
  once, zero or more times, or one or more times. A class is a list of atoms: a literal
  character, a range, \<^verbatim>\<open>\w\<close> (letters, digits and the underscore) or \<^verbatim>\<open>\d\<close>.\<close>

datatype class_atom = Lit char | Range char char | WordChar | Digit

definition in_range :: "char \<Rightarrow> char \<Rightarrow> char \<Rightarrow> bool" where
  "in_range lo hi c = ((of_char lo :: nat) \<le> of_char c \<and> (of_char c :: nat) \<le> of_char hi)"

definition is_digit :: "char \<Rightarrow> bool" where
  "is_digit c = in_range (CHR ''0'') (CHR ''9'') c"

definition is_word_char :: "char \<Rightarrow> bool" where
  "is_word_char c =
     (in_range (CHR ''a'') (CHR ''z'') c \<or> in_range (CHR ''A'') (CHR ''Z'') c
      \<or> is_digit c \<or> c = CHR ''_'')"

fun atom_matches :: "class_atom \<Rightarrow> char \<Rightarrow> bool" where
  "atom_matches (Lit a) c = (c = a)"
| "atom_matches (Range lo hi) c = in_range lo hi c"
| "atom_matches WordChar c = is_word_char c"
| "atom_matches Digit c = is_digit c"

type_synonym char_class = "class_atom list"

definition class_matches :: "char_class \<Rightarrow> char \<Rightarrow> bool" where
  "class_matches cls c = list_ex (\<lambda>a. atom_matches a c) cls"

datatype quantifier = Once | ZeroOrMore | OneOrMore

type_synonym regex = "(char_class \<times> quantifier) list"

text \<open>Matching at the start of a string, as a backtracking matcher does it: a repeated
  class first takes as many characters as it can and gives them back one by one while the
  rest of the pattern fails. The result is the length of the match.\<close>

fun match_here :: "regex \<Rightarrow> string \<Rightarrow> nat option" where
  "match_here [] s = Some 0"
| "match_here ((c, Once) # r) [] = None"
| "match_here ((c, Once) # r) (x # xs) =
     (if class_matches c x then map_option Suc (match_here r xs) else None)"
| "match_here ((c, ZeroOrMore) # r) [] = match_here r []"
| "match_here ((c, ZeroOrMore) # r) (x # xs) =
     (if class_matches c x
      then (case match_here ((c, ZeroOrMore) # r) xs of
              Some n \<Rightarrow> Some (Suc n)
            | None \<Rightarrow> match_here r (x # xs))
      else match_here r (x # xs))"
| "match_here ((c, OneOrMore) # r) [] = None"
| "match_here ((c, OneOrMore) # r) (x # xs) =
     (if class_matches c x
      then map_option Suc (match_here ((c, ZeroOrMore) # r) xs) else None)"

definition lit :: "string \<Rightarrow> regex" where
  "lit s = map (\<lambda>c. ([Lit c], Once)) s"

text \<open>Line 138, \<^verbatim>\<open>/\${(\w*:[\w\d.-]+)}/g\<close>: the last \<open>-\<close> of the class is a literal.
  Line 139, \<^verbatim>\<open>/\${sls:stage}/g\<close>. Line 140, \<^verbatim>\<open>/\${env:(\w*[\w.-_]+)}/g\<close>: here \<open>.-_\<close>
  is the range from the dot to the underscore, which holds the colon and the upper-case
  letters but not the hyphen. The groups only capture, and nothing reads the captures.\<close>

definition regex :: regex where
  "regex = lit ''${'' @ [([WordChar], ZeroOrMore), ([Lit (CHR '':'')], Once),
     ([WordChar, Digit, Lit (CHR ''.''), Lit (CHR ''-'')], OneOrMore)] @ lit ''}''"

definition slsStageRegex :: regex where
  "slsStageRegex = lit ''${sls:stage}''"

definition envRegex :: regex where
  "envRegex = lit ''${env:'' @ [([WordChar], ZeroOrMore),
     ([WordChar, Range (CHR ''.'') (CHR ''_'')], OneOrMore)] @ lit ''}''"

section \<open>String operations of the host language\<close>

text \<open>\<open>String.prototype.match\<close> with a global pattern: every non-overlapping match, left to
  right. The counter is the number of characters still covered by the previous match; after
  an empty match the scan moves on by one character. The empty list stands for \<open>null\<close>.\<close>

fun scan :: "regex \<Rightarrow> nat \<Rightarrow> string \<Rightarrow> string list" where
  "scan r k [] = (if k = 0 \<and> match_here r [] \<noteq> None then [[]] else [])"
| "scan r (Suc k) (x # xs) = scan r k xs"
| "scan r 0 (x # xs) =
     (case match_here r (x # xs) of
        Some n \<Rightarrow> take n (x # xs) # scan r (n - 1) xs
      | None \<Rightarrow> scan r 0 xs)"

definition string_match :: "regex \<Rightarrow> string \<Rightarrow> string list" where
  "string_match r s = scan r 0 s"

text \<open>\<open>RegExp.prototype.test\<close> on a pattern with the global flag: the search starts at
  \<open>lastIndex\<close>; a success leaves \<open>lastIndex\<close> at the end of the match, a failure resets
  it to 0.\<close>

fun search_from :: "regex \<Rightarrow> string \<Rightarrow> nat \<Rightarrow> nat option" where
  "search_from r [] i = map_option (\<lambda>n. i + n) (match_here r [])"
| "search_from r (x # xs) i =
     (case match_here r (x # xs) of
        Some n \<Rightarrow> Some (i + n)
      | None \<Rightarrow> search_from r xs (Suc i))"

definition regex_test :: "regex \<Rightarrow> nat \<Rightarrow> string \<Rightarrow> bool \<times> nat" where
  "regex_test r lastIndex s =
     (if length s < lastIndex then (False, 0)
      else case search_from r (drop lastIndex s) lastIndex of
             Some e \<Rightarrow> (True, e)
           | None \<Rightarrow> (False, 0))"

text \<open>\<open>String.prototype.replace\<close> with a string pattern: the first occurrence only, and the
  replacement text is a template in which \<open>$$\<close>, \<open>$&\<close>, \<open>$`\<close> and \<open>$'\<close> are expanded
  (there are no capture groups, so \<open>$1\<close> and the like stay as they are).\<close>

fun index_of :: "string \<Rightarrow> string \<Rightarrow> nat option" where
  "index_of pat [] = (if pat = [] then Some 0 else None)"
| "index_of pat (x # xs) =
     (if take (length pat) (x # xs) = pat then Some 0 else map_option Suc (index_of pat xs))"

fun get_substitution :: "string \<Rightarrow> string \<Rightarrow> string \<Rightarrow> string \<Rightarrow> string" where
  "get_substitution matched preceding following [] = []"
| "get_substitution matched preceding following [c] = [c]"
| "get_substitution matched preceding following (c # d # rest) =
     (if c = CHR ''$'' \<and> d = CHR ''$'' then CHR ''$'' # get_substitution matched preceding following rest
      else if c = CHR ''$'' \<and> d = CHR ''&'' then matched @ get_substitution matched preceding following rest
      else if c = CHR ''$'' \<and> d = CHR 0x60 then preceding @ get_substitution matched preceding following rest
      else if c = CHR ''$'' \<and> d = CHR 0x27 then following @ get_substitution matched preceding following rest
      else c # get_substitution matched preceding following (d # rest))"

definition js_replace :: "string \<Rightarrow> string \<Rightarrow> string \<Rightarrow> string" where
  "js_replace s pat replacement =
     (case index_of pat s of
        None \<Rightarrow> s
      | Some i \<Rightarrow>
          take i s @ get_substitution pat (take i s) (drop (i + length pat) s) replacement
            @ drop (i + length pat) s)"

text \<open>\<open>String.prototype.split\<close> on a one-character separator.\<close>

fun split_on :: "char \<Rightarrow> string \<Rightarrow> string list" where
  "split_on c [] = [[]]"
| "split_on c (x # xs) =
     (if x = c then [] # split_on c xs
      else (case split_on c xs of y # ys \<Rightarrow> (x # y) # ys | [] \<Rightarrow> [[x]]))"

text \<open>\<open>substring(a, b)\<close> swaps its arguments when \<open>b < a\<close>; \<open>slice(a)\<close> drops \<open>a\<close>
  characters.\<close>

definition substring :: "nat \<Rightarrow> nat \<Rightarrow> string \<Rightarrow> string" where
  "substring a b s = take (max a b - min a b) (drop (min a b) s)"

text \<open>Reading an array element: out of range gives \<open>undefined\<close>, which becomes the text
  \<open>undefined\<close> when used as a property key or in a template string.\<close>

definition element_text :: "string list \<Rightarrow> nat \<Rightarrow> string" where
  "element_text xs i = (if i < length xs then xs ! i else ''undefined'')"

fun join :: "string \<Rightarrow> string list \<Rightarrow> string" where
  "join sep [] = []"
| "join sep [x] = x"
| "join sep (x # y # ys) = x @ sep @ join sep (y # ys)"

section \<open>Configuration values and errors\<close>

text \<open>A configuration is a tree of values of the host language. A number is given by
  what this module can observe of it: whether it is truthy (neither zero nor \<open>NaN\<close>) and
  the text that it becomes when it is converted to a string. An object is the list of its
  own properties in the order in which \<open>Object.keys\<close> enumerates them. \<open>JInherited n\<close>
  is the member \<open>n\<close> that the object \<open>process.env\<close> inherits from \<open>Object.prototype\<close>
  (a function such as \<open>toString\<close>, or the prototype itself under \<open>__proto__\<close>): it is
  not a string and has no enumerable property. No parsed file and no command line holds
  one; the resolver can put one into the configuration.\<close>

datatype jsvalue =
    JUndefined | JNull | JBool bool | JNum bool string | JStr string
  | JArr "jsvalue list" | JObj "(string \<times> jsvalue) list" | JInherited string

text \<open>\<open>ServerlessError message code\<close>; the other constructors are errors that do not come
  from this module's own \<open>throw\<close> statements.\<close>

datatype error =
    ServerlessError string string | TypeError string | RangeError string | ForeignError string

definition dq :: string where
  "dq = [CHR 0x22]"

definition cannot_find_environment_variable :: "string \<Rightarrow> error" where
  "cannot_find_environment_variable name =
     ServerlessError
       (''The environment variable '' @ dq @ name @ dq @ '' is referenced but is not defined'')
       ''CANNOT_FIND_ENVIRONMENT_VARIABLE''"

definition unrecognized_variable_sources :: "string list \<Rightarrow> error" where
  "unrecognized_variable_sources sources =
     ServerlessError
       (''Unrecognized configuration variable sources: '' @ dq
          @ join (dq @ '', '' @ dq) sources @ dq)
       ''UNRECOGNIZED_VARIABLE_SOURCES''"

section \<open>resolveConfigurationVariables\<close>

text \<open>The process environment as the resolver reads it: \<open>env name\<close> is \<open>process.env[name]\<close>,
  and \<open>None\<close> when that is \<open>null\<close> or \<open>undefined\<close>. The lookup goes through the prototype
  chain of the object \<open>process.env\<close>: it gives \<open>Variable v\<close> for a variable of the
  environment, whose value \<open>v\<close> is always a string, and \<open>Inherited n f\<close> for a name \<open>n\<close>
  that is no variable but a member of \<open>Object.prototype\<close> (\<open>toString\<close>, \<open>constructor\<close>
  and the like). Such a member is not a string; \<open>f matched position whole\<close> is the text that
  \<open>String.prototype.replace\<close> puts in place of the match when the member is its second
  argument (a function is called with the match, its position and the whole string, and the
  call may throw).\<close>

datatype env_value =
    Variable string
  | Inherited string "string \<Rightarrow> nat \<Rightarrow> string \<Rightarrow> error + string"

type_synonym environment = "string \<rightharpoonup> env_value"

text \<open>\<open>String.prototype.replace\<close> with a string pattern and such a member as the
  replacement: the text it gives is inserted as it is.\<close>

definition js_replace_call ::
  "string \<Rightarrow> string \<Rightarrow> (string \<Rightarrow> nat \<Rightarrow> string \<Rightarrow> error + string) \<Rightarrow> error + string" where
  "js_replace_call s pat f =
     (case index_of pat s of
        None \<Rightarrow> Inr s
      | Some i \<Rightarrow>
          (case f pat i s of
             Inl e \<Rightarrow> Inl e
           | Inr t \<Rightarrow> Inr (take i s @ t @ drop (i + length pat) s)))"

text \<open>Line 152: the placeholder without \<open>${\<close> and \<open>}\<close>, split at the colons.\<close>

definition referencedPropertyPath :: "string \<Rightarrow> string list" where
  "referencedPropertyPath mt = split_on (CHR '':'') (substring 2 (length mt - 1) mt)"

text \<open>The mutable state of one pass: the \<open>lastIndex\<close> of the two global patterns that are
  used with \<open>test\<close>, the flag \<open>variableResolved\<close>, and the set of unrecognized sources in
  insertion order.\<close>

record pass_state =
  slsStageLastIndex :: nat
  envLastIndex :: nat
  variableResolved :: bool
  unrecognizedVariableSources :: "string list"

definition set_add :: "string \<Rightarrow> string list \<Rightarrow> string list" where
  "set_add x xs = (if x \<in> set xs then xs else xs @ [x])"

text \<open>The loop \<open>for (const match of matches)\<close>; the last argument is \<open>newValue\<close>, which
  is a string unless a whole value has been replaced by an inherited member of
  \<open>process.env\<close>, and then it has no method \<open>replace\<close>.\<close>

fun for_matches ::
  "environment \<Rightarrow> string \<Rightarrow> string \<Rightarrow> string list \<Rightarrow> pass_state \<Rightarrow> jsvalue
     \<Rightarrow> error + (pass_state \<times> jsvalue)" where
  "for_matches env stage val [] st newValue = Inr (st, newValue)"
| "for_matches env stage val (mt # rest) st newValue =
     (let (isSls, l1) = regex_test slsStageRegex (slsStageLastIndex st) mt;
          st1 = st\<lparr>slsStageLastIndex := l1\<rparr>
      in if isSls
         then (case newValue of
                 JStr nv \<Rightarrow>
                   for_matches env stage val rest (st1\<lparr>variableResolved := True\<rparr>)
                     (JStr (js_replace nv mt stage))
               | _ \<Rightarrow> Inl (TypeError ''newValue.replace is not a function''))
         else
           let (isEnv, l2) = regex_test envRegex (envLastIndex st1) mt;
               st2 = st1\<lparr>envLastIndex := l2\<rparr>
           in if isEnv
              then
                let name = element_text (referencedPropertyPath mt) 1
                in (case env name of
                      None \<Rightarrow> Inl (cannot_find_environment_variable name)
                    | Some (Variable v) \<Rightarrow>
                        for_matches env stage val rest (st2\<lparr>variableResolved := True\<rparr>)
                          (JStr (if mt = val then v else js_replace val mt v))
                    | Some (Inherited n f) \<Rightarrow>
                        if mt = val
                        then for_matches env stage val rest (st2\<lparr>variableResolved := True\<rparr>)
                               (JInherited n)
                        else (case js_replace_call val mt f of
                                Inl e \<Rightarrow> Inl e
                              | Inr t \<Rightarrow>
                                  for_matches env stage val rest
                                    (st2\<lparr>variableResolved := True\<rparr>) (JStr t)))
              else
                let variableSource = element_text (split_on (CHR '':'') (drop 2 mt)) 0
                in for_matches env stage val rest
                     (st2\<lparr>unrecognizedVariableSources :=
                            set_add variableSource (unrecognizedVariableSources st2)\<rparr>)
                     newValue)"

text \<open>The callback of \<open>traverse(configuration).forEach\<close> on a string node; the result is
  the node after \<open>this.update\<close>.\<close>

definition visit_string ::
  "environment \<Rightarrow> string \<Rightarrow> pass_state \<Rightarrow> string \<Rightarrow> error + (pass_state \<times> jsvalue)" where
  "visit_string env stage st val =
     (case string_match regex val of
        [] \<Rightarrow> Inr (st, JStr val)
      | matches \<Rightarrow> for_matches env stage val matches st (JStr val))"

text \<open>The traversal: every node in pre-order, children in key order, updating in place.
  Only string nodes are changed, and what a string node is replaced with (a string or an
  inherited member) has no children.\<close>

fun walk :: "environment \<Rightarrow> string \<Rightarrow> pass_state \<Rightarrow> jsvalue \<Rightarrow> error + (pass_state \<times> jsvalue)"
and walk_elements ::
  "environment \<Rightarrow> string \<Rightarrow> pass_state \<Rightarrow> jsvalue list \<Rightarrow> error + (pass_state \<times> jsvalue list)"
and walk_properties ::
  "environment \<Rightarrow> string \<Rightarrow> pass_state \<Rightarrow> (string \<times> jsvalue) list
     \<Rightarrow> error + (pass_state \<times> (string \<times> jsvalue) list)" where
  "walk env stage st (JStr s) = visit_string env stage st s"
| "walk env stage st (JArr xs) =
     (case walk_elements env stage st xs of
        Inl e \<Rightarrow> Inl e
      | Inr (st', xs') \<Rightarrow> Inr (st', JArr xs'))"
| "walk env stage st (JObj kvs) =
     (case walk_properties env stage st kvs of
        Inl e \<Rightarrow> Inl e
      | Inr (st', kvs') \<Rightarrow> Inr (st', JObj kvs'))"
| "walk env stage st JUndefined = Inr (st, JUndefined)"
| "walk env stage st JNull = Inr (st, JNull)"
| "walk env stage st (JBool b) = Inr (st, JBool b)"
| "walk env stage st (JNum t n) = Inr (st, JNum t n)"
| "walk env stage st (JInherited n) = Inr (st, JInherited n)"
| "walk_elements env stage st [] = Inr (st, [])"
| "walk_elements env stage st (x # xs) =
     (case walk env stage st x of
        Inl e \<Rightarrow> Inl e
      | Inr (st', x') \<Rightarrow>
          (case walk_elements env stage st' xs of
             Inl e \<Rightarrow> Inl e
           | Inr (st'', xs') \<Rightarrow> Inr (st'', x' # xs')))"
| "walk_properties env stage st [] = Inr (st, [])"
| "walk_properties env stage st ((k, x) # kvs) =
     (case walk env stage st x of
        Inl e \<Rightarrow> Inl e
      | Inr (st', x') \<Rightarrow>
          (case walk_properties env stage st' kvs of
             Inl e \<Rightarrow> Inl e
           | Inr (st'', kvs') \<Rightarrow> Inr (st'', (k, x') # kvs')))"

definition fresh_pass :: "string list \<Rightarrow> pass_state" where
  "fresh_pass sources =
     \<lparr>slsStageLastIndex = 0, envLastIndex = 0, variableResolved = False,
      unrecognizedVariableSources = sources\<rparr>"

text \<open>The function calls itself for as long as a pass substitutes something, and nothing
  bounds the number of passes: \<open>None\<close> is a run whose passes never end. What the host does
  with such a run (it gives up when its call stack is exhausted) is part of the main flow
  below. Each call builds its three patterns anew, so every pass starts with both
  \<open>lastIndex\<close> at 0; the set of unrecognized sources is handed on.\<close>

partial_function (option) resolveConfigurationVariables ::
  "environment \<Rightarrow> jsvalue \<Rightarrow> string \<Rightarrow> string list \<Rightarrow> (error + jsvalue) option" where
  "resolveConfigurationVariables env configuration stage sources =
     (case walk env stage (fresh_pass sources) configuration of
        Inl e \<Rightarrow> Some (Inl e)
      | Inr (st, resolvedConfiguration) \<Rightarrow>
          if variableResolved st
          then resolveConfigurationVariables env resolvedConfiguration stage
                 (unrecognizedVariableSources st)
          else if unrecognizedVariableSources st \<noteq> []
          then Some (Inl (unrecognized_variable_sources (unrecognizedVariableSources st)))
          else Some (Inr resolvedConfiguration))"

declare resolveConfigurationVariables.simps [code]


section \<open>Vocabulary for the properties of the resolver\<close>

text \<open>The string nodes of a configuration in the order in which the traversal visits them,
  and the callback applied to a list of strings in that order, which gives the list of the
  nodes that replace them.\<close>

fun strings_of :: "jsvalue \<Rightarrow> string list"
and strings_of_elements :: "jsvalue list \<Rightarrow> string list"
and strings_of_properties :: "(string \<times> jsvalue) list \<Rightarrow> string list" where
  "strings_of (JStr s) = [s]"
| "strings_of (JArr xs) = strings_of_elements xs"
| "strings_of (JObj kvs) = strings_of_properties kvs"
| "strings_of JUndefined = []"
| "strings_of JNull = []"
| "strings_of (JBool b) = []"
| "strings_of (JNum t n) = []"
| "strings_of (JInherited n) = []"
| "strings_of_elements [] = []"
| "strings_of_elements (x # xs) = strings_of x @ strings_of_elements xs"
| "strings_of_properties [] = []"
| "strings_of_properties ((k, x) # kvs) = strings_of x @ strings_of_properties kvs"

fun visit_all ::
  "environment \<Rightarrow> string \<Rightarrow> pass_state \<Rightarrow> string list \<Rightarrow> error + (pass_state \<times> jsvalue list)" where
  "visit_all env stage st [] = Inr (st, [])"
| "visit_all env stage st (s # ss) =
     (case visit_string env stage st s of
        Inl e \<Rightarrow> Inl e
      | Inr (st', s') \<Rightarrow>
          (case visit_all env stage st' ss of
             Inl e \<Rightarrow> Inl e
           | Inr (st'', ss') \<Rightarrow> Inr (st'', s' # ss')))"

text \<open>The placeholders of a configuration: what the pattern \<open>regex\<close> matches in its string
  nodes, in traversal order.\<close>

definition placeholders :: "jsvalue \<Rightarrow> string list" where
  "placeholders cfg = concat (map (string_match regex) (strings_of cfg))"

text \<open>The number of \<open>$\<close> characters in a string, and in all the strings of a
  configuration.\<close>

definition dollars :: "string \<Rightarrow> nat" where
  "dollars s = length (filter (\<lambda>c. c = CHR ''$'') s)"

definition dollar_count :: "jsvalue \<Rightarrow> nat" where
  "dollar_count cfg = dollars (concat (strings_of cfg))"

definition sls_stage_placeholder :: string where
  "sls_stage_placeholder = ''${sls:stage}''"

definition env_placeholder :: "string \<Rightarrow> string" where
  "env_placeholder name = ''${env:'' @ name @ ''}''"

text \<open>The characters that both \<open>regex\<close> and \<open>envRegex\<close> accept in the name of an environment
  variable: word characters and the dot.\<close>

definition is_name_char :: "char \<Rightarrow> bool" where
  "is_name_char c = (is_word_char c \<or> c = CHR ''.'')"

text \<open>\<open>envRegex.test(match)\<close> succeeds when \<open>lastIndex\<close> is 0.\<close>

definition env_pattern_accepts :: "string \<Rightarrow> bool" where
  "env_pattern_accepts mt = fst (regex_test envRegex 0 mt)"

text \<open>A placeholder that the resolver is meant to substitute: \<open>${sls:stage}\<close>, or \<open>${env:V}\<close>
  for a name \<open>V\<close> that is defined with a value free of \<open>$\<close>.\<close>

definition env_name_of :: "string \<Rightarrow> string" where
  "env_name_of mt = take (length mt - 7) (drop 6 mt)"

definition resolvable :: "environment \<Rightarrow> string \<Rightarrow> bool" where
  "resolvable env mt =
     (mt = sls_stage_placeholder
      \<or> (mt = env_placeholder (env_name_of mt) \<and> env_name_of mt \<noteq> []
         \<and> list_all is_name_char (env_name_of mt)
         \<and> (case env (env_name_of mt) of
               Some (Variable v) \<Rightarrow> CHR ''$'' \<notin> set v
             | _ \<Rightarrow> False)))"

text \<open>A placeholder whose name, as line 152 reads it, is a variable of the environment with
  a value free of \<open>$\<close>.\<close>

definition refers_to_plain_variable :: "environment \<Rightarrow> string \<Rightarrow> bool" where
  "refers_to_plain_variable env mt =
     (case env (element_text (referencedPropertyPath mt) 1) of
        Some (Variable v) \<Rightarrow> CHR ''$'' \<notin> set v
      | _ \<Rightarrow> False)"

text \<open>A string in which every \<open>$\<close> begins a placeholder, cut into its placeholders and the
  text between them: the string is the concatenation of the pieces, and its placeholders are
  the holes. \<open>fill_first h r\<close> puts the text \<open>r\<close> in place of the first hole \<open>h\<close>.\<close>

datatype piece = Plain string | Hole string

fun render :: "piece list \<Rightarrow> string" where
  "render [] = []"
| "render (Plain p # ts) = p @ render ts"
| "render (Hole h # ts) = h @ render ts"

fun holes :: "piece list \<Rightarrow> string list" where
  "holes [] = []"
| "holes (Plain p # ts) = holes ts"
| "holes (Hole h # ts) = h # holes ts"

fun fill_first :: "string \<Rightarrow> string \<Rightarrow> piece list \<Rightarrow> piece list" where
  "fill_first h r [] = []"
| "fill_first h r (Plain p # ts) = Plain p # fill_first h r ts"
| "fill_first h r (Hole h' # ts) =
     (if h' = h then Plain r # ts else Hole h' # fill_first h r ts)"

definition is_placeholder :: "string \<Rightarrow> bool" where
  "is_placeholder h = (match_here regex h = Some (length h))"

fun well_formed :: "piece list \<Rightarrow> bool" where
  "well_formed [] = True"
| "well_formed (Plain p # ts) = (CHR ''$'' \<notin> set p \<and> well_formed ts)"
| "well_formed (Hole h # ts) = (is_placeholder h \<and> well_formed ts)"

text \<open>The path characters of \<open>regex\<close>.\<close>

definition is_path_char :: "char \<Rightarrow> bool" where
  "is_path_char c = class_matches [WordChar, Digit, Lit (CHR ''.''), Lit (CHR ''-'')] c"

text \<open>\<open>tn\<close> has no holes but those of \<open>ts\<close>, not more of them, and still has the hole \<open>e\<close>
  if \<open>ts\<close> has it.\<close>

definition keeps_hole :: "string \<Rightarrow> piece list \<Rightarrow> piece list \<Rightarrow> bool" where
  "keeps_hole e ts tn =
     (well_formed tn \<and> set (holes tn) \<subseteq> set (holes ts)
      \<and> (e \<in> set (holes ts) \<longrightarrow> e \<in> set (holes tn))
      \<and> length (holes tn) \<le> length (holes ts))"

text \<open>Sample environments, given by their variables. Of the names that the examples look
  up in them, only \<open>FOO\<close> is a variable, and none is a member of \<open>Object.prototype\<close>.\<close>

definition self_referring_env :: environment where
  "self_referring_env = [''FOO'' \<mapsto> Variable ''${env:FOO}'']"

definition foo_env :: environment where
  "foo_env = [''FOO'' \<mapsto> Variable ''bar'']"

text \<open>An environment with the variable \<open>FOO\<close> in which the lookup of \<open>toString\<close> finds the
  method of \<open>Object.prototype\<close>. Called by \<open>replace\<close>, the method has no receiver and
  answers \<open>[object Undefined]\<close>.\<close>

definition foo_env_with_prototype :: environment where
  "foo_env_with_prototype =
     [''FOO'' \<mapsto> Variable ''bar'',
      ''toString'' \<mapsto> Inherited ''toString'' (\<lambda>matched position whole. Inr ''[object Undefined]'')]"

section \<open>Everything outside this module\<close>

text \<open>Truthiness and \<open>typeof v === 'object'\<close> of the host language.\<close>

fun truthy :: "jsvalue \<Rightarrow> bool" where
  "truthy JUndefined = False"
| "truthy JNull = False"
| "truthy (JBool b) = b"
| "truthy (JNum t n) = t"
| "truthy (JStr s) = (s \<noteq> [])"
| "truthy (JArr xs) = True"
| "truthy (JObj kvs) = True"
| "truthy (JInherited n) = True"

fun typeof_object :: "jsvalue \<Rightarrow> bool" where
  "typeof_object JNull = True"
| "typeof_object (JArr xs) = True"
| "typeof_object (JObj kvs) = True"
| "typeof_object (JInherited n) = (n = ''__proto__'')"
| "typeof_object v = False"

text \<open>Reading a property that is not a built-in one: \<open>undefined\<close> when it is absent, a
  \<open>TypeError\<close> on \<open>null\<close> and \<open>undefined\<close>.\<close>

fun get_property :: "jsvalue \<Rightarrow> string \<Rightarrow> error + jsvalue" where
  "get_property (JObj kvs) k = (case map_of kvs k of Some v \<Rightarrow> Inr v | None \<Rightarrow> Inr JUndefined)"
| "get_property JUndefined k = Inl (TypeError (''Cannot read properties of undefined (reading '' @ k @ '')''))"
| "get_property JNull k = Inl (TypeError (''Cannot read properties of null (reading '' @ k @ '')''))"
| "get_property v k = Inr JUndefined"

text \<open>The parsed command line of \<open>minimist\<close>: the positional tokens \<open>args._\<close>, always an
  array, and the named options in the order of their keys.\<close>

type_synonym options = "(string \<times> jsvalue) list"

record cli_args =
  positional :: "string list"
  named :: options

definition option_value :: "options \<Rightarrow> string \<Rightarrow> jsvalue" where
  "option_value opts k = (case map_of opts k of Some v \<Rightarrow> v | None \<Rightarrow> JUndefined)"

definition delete_option :: "string \<Rightarrow> options \<Rightarrow> options" where
  "delete_option k opts = filter (\<lambda>kv. fst kv \<noteq> k) opts"

text \<open>Modelled from the spec: the class \<open>Context\<close> is not part of this file. A run context is
  the record it is constructed from (working directory, state root, verbose flag, stage,
  application name); its logger and its table of sub-command outcomes belong to the
  collaborators described by the record \<open>world\<close> below.\<close>

record run_context =
  root :: string
  stateRoot :: string
  verbose :: jsvalue
  stage :: jsvalue
  appName :: jsvalue

text \<open>The module-level variables shared by the main flow and the exit listeners; each is
  \<open>undefined\<close> (\<open>None\<close>) until the main flow assigns it.\<close>

record run_state =
  rs_options :: "options option"
  rs_method :: "string option"
  rs_configurationForTelemetry :: "jsvalue option"
  rs_componentName :: "jsvalue option"
  rs_context :: "run_context option"

definition initial_run_state :: run_state where
  "initial_run_state =
     \<lparr>rs_options = None, rs_method = None, rs_configurationForTelemetry = None,
      rs_componentName = None, rs_context = None\<rparr>"

text \<open>The argument of \<open>generateTelemetryPayload\<close>.\<close>

record telemetry_input =
  t_configuration :: "jsvalue option"
  t_options :: "options option"
  t_command :: "string option"
  t_componentName :: "jsvalue option"
  t_context :: run_context
  t_error :: "error option"
  t_interruptSignal :: "string option"

definition telemetry_of :: "run_state \<Rightarrow> run_context \<Rightarrow> error option \<Rightarrow> string option \<Rightarrow> telemetry_input" where
  "telemetry_of rs ctx err sig =
     \<lparr>t_configuration = rs_configurationForTelemetry rs, t_options = rs_options rs,
      t_command = rs_method rs, t_componentName = rs_componentName rs, t_context = ctx,
      t_error = err, t_interruptSignal = sig\<rparr>"

text \<open>What a run does to the outside, in order.\<close>

datatype event =
    RenderHelp
  | FileExistsSync string
  | ReadFileSync string
  | IsComponentsTemplate
  | NewContext run_context
  | ContextInit
  | GetConfiguration
  | ResolveConfigurationVariables
  | NewComponentsService
  | ComponentsServiceInit
  | InvokeComponentCommand jsvalue string options
  | InvokeGlobalCommand string options
  | StoreTelemetryLocally telemetry_input
  | SendTelemetry
  | ContextShutdown
  | LoggerLog string
  | HandleError error
  | ProcessKill string

text \<open>How a piece of code ends: it returns, it calls \<open>process.exit\<close>, or an error leaves
  it (for an asynchronous function, its promise is rejected).\<close>

datatype ending = Returned | Exit nat | Thrown error

text \<open>The collaborators that are not in this file, as the answers they give during one run:
  the command line, the working directory, the files that exist with their parsed content,
  the process environment and platform, and for each call that may fail the error it throws
  (\<open>None\<close> when it returns).\<close>

record world =
  args :: cli_args
  cwd :: string
  files :: "(string \<times> jsvalue) list"
  process_env :: environment
  platform :: string
  context_init_error :: "error option"
  components_init_error :: "error option"
  invoke_error :: "error option"
  componentCommandsOutcomes :: "(string \<times> string) list"
  store_error_in_try :: "error option"
  send_error_in_try :: "error option"
  shutdown_error :: "error option"
  store_error_in_catch :: "error option"
  send_error_in_catch :: "error option"

definition path_join :: "string \<Rightarrow> string \<Rightarrow> string" where
  "path_join dir name = dir @ ''/'' @ name"

section \<open>The main flow\<close>

definition getServerlessFile :: "world \<Rightarrow> string \<Rightarrow> event list \<times> jsvalue" where
  "getServerlessFile w dir =
     (let ymlFilePath = path_join dir ''serverless-compose.yml'';
          yamlFilePath = path_join dir ''serverless-compose.yaml''
      in case map_of (files w) ymlFilePath of
           Some content \<Rightarrow> ([FileExistsSync ymlFilePath, ReadFileSync ymlFilePath], content)
         | None \<Rightarrow>
             (case map_of (files w) yamlFilePath of
                Some content \<Rightarrow>
                  ([FileExistsSync ymlFilePath, FileExistsSync yamlFilePath,
                    ReadFileSync yamlFilePath], content)
              | None \<Rightarrow>
                  ([FileExistsSync ymlFilePath, FileExistsSync yamlFilePath], JBool False)))"

definition isComponentsTemplate :: "jsvalue \<Rightarrow> error + bool" where
  "isComponentsTemplate serverlessFile =
     (if \<not> typeof_object serverlessFile then Inr False
      else case get_property serverlessFile ''provider'' of
             Inl e \<Rightarrow> Inl e
           | Inr provider \<Rightarrow>
               if truthy provider
                  \<and> (case get_property provider ''name'' of Inr n \<Rightarrow> truthy n | Inl e \<Rightarrow> False)
               then Inr False
               else (case get_property serverlessFile ''services'' of
                       Inl e \<Rightarrow> Inl e
                     | Inr services \<Rightarrow> Inr (truthy services)))"

text \<open>\<open>getConfiguration\<close> on a template that is not a string (the main flow only passes
  one that satisfied \<open>isComponentsTemplate\<close>; the branch for a path needs helpers that are
  not in this file and is left to \<open>template_from_path\<close>).\<close>

definition getConfiguration :: "(string \<Rightarrow> error + jsvalue) \<Rightarrow> jsvalue \<Rightarrow> error + jsvalue" where
  "getConfiguration template_from_path template =
     (case template of
        JStr p \<Rightarrow> template_from_path p
      | _ \<Rightarrow>
          if \<not> typeof_object template
          then Inl (ServerlessError
                 ''The template input could either be an object, or a string path to a template file''
                 ''INVALID_TEMPLATE_FORMAT'')
          else Inr template)"

definition referenced_template_path_does_not_exist :: "string \<Rightarrow> error + jsvalue" where
  "referenced_template_path_does_not_exist p =
     Inl (ServerlessError ''The referenced template path does not exist''
            ''REFERENCED_TEMPLATE_PATH_DOES_NOT_EXIST'')"

text \<open>Lines 193 to 209: the command, the component it is for, and the options handed
  on. \<open>method = args._\<close> is an array, and every array is truthy, also the empty one.\<close>

definition array_truthy :: "string list \<Rightarrow> bool" where
  "array_truthy xs = True"

definition route :: "cli_args \<Rightarrow> jsvalue option \<times> string \<times> options" where
  "route a =
     (let method = join '':'' (positional a);
          opts = named a
      in if truthy (option_value opts ''service'')
         then (Some (option_value opts ''service''), method, delete_option ''service'' opts)
         else if CHR '':'' \<in> set method
         then (case split_on (CHR '':'') method of
                 c # methods \<Rightarrow> (Some (JStr c), join '':'' methods, opts)
               | [] \<Rightarrow> (None, method, opts))
         else (None, method, opts))"

definition invalid_cli_option :: "string \<Rightarrow> error" where
  "invalid_cli_option opt =
     ServerlessError
       (''The '' @ dq @ ''--'' @ opt @ dq @ '' option is not supported (yet) in Serverless Compose'')
       ''INVALID_CLI_OPTION''"

definition unsupportedGlobalCliOptions :: "string list" where
  "unsupportedGlobalCliOptions = [''debug'', ''config'', ''param'']"

text \<open>The \<open>catch\<close> block of the main flow.\<close>

definition catch_block :: "world \<Rightarrow> run_state \<Rightarrow> run_context \<Rightarrow> error \<Rightarrow> event list \<times> ending" where
  "catch_block w rs ctx e =
     (let evs = [HandleError e, StoreTelemetryLocally (telemetry_of rs ctx (Some e) None)]
      in case store_error_in_catch w of
           Some e' \<Rightarrow> (evs, Thrown e')
         | None \<Rightarrow>
             (case send_error_in_catch w of
                Some e' \<Rightarrow> (evs @ [SendTelemetry], Thrown e')
              | None \<Rightarrow> (evs @ [SendTelemetry], Exit 1)))"

text \<open>The \<open>try\<close> block, up to the \<open>process.exit\<close> that ends it or the error that leaves
  it for the \<open>catch\<close> block. A log line is given by its text, without the colour that
  \<open>colors.darkGray\<close> adds.\<close>

definition try_block ::
  "world \<Rightarrow> run_state \<Rightarrow> run_context \<Rightarrow> jsvalue option \<Rightarrow> string \<Rightarrow> options
     \<Rightarrow> event list \<times> (error + nat)" where
  "try_block w rs ctx componentName method opts =
     (let evs0 = [NewComponentsService, ComponentsServiceInit] in
      case components_init_error w of
        Some e \<Rightarrow> (evs0, Inl e)
      | None \<Rightarrow>
          (let evs1 = evs0 @
                 [case componentName of
                    Some c \<Rightarrow>
                      if truthy c then InvokeComponentCommand c method opts
                      else InvokeGlobalCommand method opts
                  | None \<Rightarrow> InvokeGlobalCommand method opts]
           in case invoke_error w of
                Some e \<Rightarrow> (evs1, Inl e)
              | None \<Rightarrow>
                  (let evs2 = evs1 @ [StoreTelemetryLocally (telemetry_of rs ctx None None)] in
                   case store_error_in_try w of
                     Some e \<Rightarrow> (evs2, Inl e)
                   | None \<Rightarrow>
                       (case send_error_in_try w of
                          Some e \<Rightarrow> (evs2 @ [SendTelemetry], Inl e)
                        | None \<Rightarrow>
                            (case shutdown_error w of
                               Some e \<Rightarrow> (evs2 @ [SendTelemetry, ContextShutdown], Inl e)
                             | None \<Rightarrow>
                                 if ''failure'' \<in> set (map snd (componentCommandsOutcomes w))
                                 then (evs2 @ [SendTelemetry, ContextShutdown, LoggerLog [],
                                         LoggerLog (''Verbose logs are available in '' @ dq
                                           @ ''.serverless/compose.log'' @ dq)],
                                       Inr 1)
                                 else (evs2 @ [SendTelemetry, ContextShutdown], Inr 0))))))"

definition try_catch ::
  "world \<Rightarrow> run_state \<Rightarrow> run_context \<Rightarrow> jsvalue option \<Rightarrow> string \<Rightarrow> options
     \<Rightarrow> event list \<times> ending" where
  "try_catch w rs ctx componentName method opts =
     (case try_block w rs ctx componentName method opts of
        (evs, Inr n) \<Rightarrow> (evs, Exit n)
      | (evs, Inl e) \<Rightarrow> (case catch_block w rs ctx e of (evs', r) \<Rightarrow> (evs @ evs', r)))"


text \<open>The text a value becomes when it is used as a replacement string. In an array,
  \<open>null\<close> and \<open>undefined\<close> become the empty text.\<close>

fun text_of :: "jsvalue \<Rightarrow> string" where
  "text_of (JStr s) = s"
| "text_of JUndefined = ''undefined''"
| "text_of JNull = ''null''"
| "text_of (JBool b) = (if b then ''true'' else ''false'')"
| "text_of (JNum t n) = n"
| "text_of (JArr xs) =
     join '','' (map (\<lambda>x. if x = JUndefined \<or> x = JNull then [] else text_of x) xs)"
| "text_of (JObj kvs) = ''[object Object]''"
| "text_of (JInherited n) =
     (if n = ''__proto__'' then ''[object Object]''
      else ''function '' @ n @ ''() { [native code] }'')"

text \<open>\<open>a || b\<close>.\<close>

definition js_or :: "jsvalue \<Rightarrow> jsvalue \<Rightarrow> jsvalue" where
  "js_or a b = (if truthy a then a else b)"

text \<open>The checks of lines 244 to 255: the first reserved option that is set.\<close>

definition reserved_option :: "options \<Rightarrow> string option" where
  "reserved_option opts =
     (case filter (\<lambda>opt. truthy (option_value opts opt)) unsupportedGlobalCliOptions of
        [] \<Rightarrow> None
      | opt # rest \<Rightarrow> Some opt)"

text \<open>Lines 211 to 242: the configuration file is found, its shape is checked, the run
  context is built and initialised, and the variables are resolved. The result is the
  context and the resolved configuration, or the way the run ends here. Every pass of the
  resolution is one more frame on the call stack of the host, so a resolution whose passes
  never end exhausts it and is rejected with a \<open>RangeError\<close>; a resolution that ends is
  taken to fit the stack.\<close>

definition load_configuration ::
  "world \<Rightarrow> options \<Rightarrow> event list \<times> (ending + run_context \<times> jsvalue)" where
  "load_configuration w opts =
     (let (evs_file, serverlessFile) = getServerlessFile w (cwd w)
      in if \<not> truthy serverlessFile
         then (evs_file,
               Inl (Thrown (ServerlessError ''No serverless-compose.yml file found''
                              ''CONFIGURATION_FILE_NOT_FOUND'')))
         else
           (case isComponentsTemplate serverlessFile of
              Inl e \<Rightarrow> (evs_file @ [IsComponentsTemplate], Inl (Thrown e))
            | Inr False \<Rightarrow>
                (evs_file @ [IsComponentsTemplate],
                 Inl (Thrown (ServerlessError
                   (''serverless-compose.yml does not contain valid Serverless Compose configuration.''
                      @ [CHR 0x0A]
                      @ ''Read about Serverless Compose in the documentation: ''
                      @ ''https://github.com/serverless/compose'')
                   ''INVALID_CONFIGURATION'')))
            | Inr True \<Rightarrow>
                (case get_property serverlessFile ''name'' of
                   Inl e \<Rightarrow> (evs_file @ [IsComponentsTemplate], Inl (Thrown e))
                 | Inr name \<Rightarrow>
                     (let ctx = \<lparr>root = cwd w, stateRoot = path_join (cwd w) ''.serverless'',
                                 verbose = option_value opts ''verbose'',
                                 stage = js_or (option_value opts ''stage'') (JStr ''dev''),
                                 appName = name\<rparr>;
                          evs1 = evs_file @ [IsComponentsTemplate, NewContext ctx, ContextInit]
                      in case context_init_error w of
                           Some e \<Rightarrow> (evs1, Inl (Thrown e))
                         | None \<Rightarrow>
                             (case getConfiguration referenced_template_path_does_not_exist
                                     serverlessFile of
                                Inl e \<Rightarrow> (evs1 @ [GetConfiguration], Inl (Thrown e))
                              | Inr configuration \<Rightarrow>
                                  (let evs2 = evs1 @ [GetConfiguration, ResolveConfigurationVariables]
                                   in case resolveConfigurationVariables (process_env w)
                                             configuration (text_of (stage ctx)) [] of
                                        None \<Rightarrow>
                                          (evs2, Inl (Thrown (RangeError
                                                   ''Maximum call stack size exceeded'')))
                                      | Some (Inl e) \<Rightarrow> (evs2, Inl (Thrown e))
                                      | Some (Inr resolved) \<Rightarrow> (evs2, Inr (ctx, resolved))))))))"

text \<open>Lines 211 to 309, once the command has been routed: the configuration, then the
  reserved options, then the command.\<close>

definition run_routed ::
  "world \<Rightarrow> jsvalue option \<Rightarrow> string \<Rightarrow> options \<Rightarrow> event list \<times> ending" where
  "run_routed w componentName method opts =
     (case load_configuration w opts of
        (evs, Inl r) \<Rightarrow> (evs, r)
      | (evs, Inr (ctx, resolved)) \<Rightarrow>
          (let rs = initial_run_state\<lparr>rs_options := Some opts, rs_method := Some method,
                      rs_componentName := componentName, rs_context := Some ctx,
                      rs_configurationForTelemetry := Some resolved\<rparr>
           in case reserved_option opts of
                Some opt \<Rightarrow> (evs, Thrown (invalid_cli_option opt))
              | None \<Rightarrow>
                  (case try_catch w rs ctx componentName method opts of
                     (evs', r) \<Rightarrow> (evs @ evs', r))))"

text \<open>Line 188.\<close>

definition help_requested :: "cli_args \<Rightarrow> bool" where
  "help_requested a =
     (truthy (option_value (named a) ''help'') \<or> element_text (positional a) 0 = ''help'')"

definition runComponents :: "world \<Rightarrow> event list \<times> ending" where
  "runComponents w =
     (if help_requested (args w)
      then ([RenderHelp], Returned)
      else if \<not> array_truthy (positional (args w))
      then ([RenderHelp], Returned)
      else (case route (args w) of
              (componentName, method, opts) \<Rightarrow> run_routed w componentName method opts))"

section \<open>The exit listeners\<close>

text \<open>The listener of \<open>uncaughtException\<close>. It reads \<open>context.logger\<close> of the module-level
  variable, not of \<open>usedContext\<close>. The last argument is the error with which
  \<open>sendTelemetry\<close> rejects, if it does.\<close>

definition fallback_context :: "world \<Rightarrow> run_context" where
  "fallback_context w =
     \<lparr>root = cwd w, stateRoot = [], verbose = JUndefined, stage = JUndefined,
      appName = JUndefined\<rparr>"

definition uncaughtException_listener ::
  "world \<Rightarrow> run_state \<Rightarrow> error \<Rightarrow> error option \<Rightarrow> error option \<Rightarrow> event list \<times> ending" where
  "uncaughtException_listener w rs err store_error send_error =
     (let (evs0, usedContext) =
            (case rs_context rs of
               Some c \<Rightarrow> ([], c)
             | None \<Rightarrow> ([NewContext (fallback_context w)], fallback_context w));
          evs1 = evs0 @ [StoreTelemetryLocally (telemetry_of rs usedContext (Some err) None)]
      in case store_error of
           Some e \<Rightarrow> (evs1, Thrown e)
         | None \<Rightarrow>
             (case rs_context rs of
                None \<Rightarrow>
                  (evs1, Thrown (TypeError ''Cannot read properties of undefined (reading logger)''))
              | Some c \<Rightarrow>
                  (case send_error of
                     Some e \<Rightarrow> (evs1 @ [HandleError err, SendTelemetry], Thrown e)
                   | None \<Rightarrow> (evs1 @ [HandleError err, SendTelemetry], Exit 1))))"

text \<open>The listener of one terminating signal. It is registered with \<open>once\<close>, so it is no
  longer counted by \<open>process.listenerCount\<close> when it runs: the count is that of the other
  listeners.\<close>

definition signal_listener ::
  "world \<Rightarrow> run_state \<Rightarrow> string \<Rightarrow> nat \<Rightarrow> error option \<Rightarrow> event list \<times> ending" where
  "signal_listener w rs signal listenerCount store_error =
     (let isOtherSigintListener = (listenerCount \<noteq> 0);
          (evs0, usedContext) =
            (case rs_context rs of
               Some c \<Rightarrow> ([], c)
             | None \<Rightarrow> ([NewContext (fallback_context w)], fallback_context w));
          evs1 = evs0 @ [StoreTelemetryLocally (telemetry_of rs usedContext None (Some signal))]
      in case store_error of
           Some e \<Rightarrow> (evs1, Thrown e)
         | None \<Rightarrow>
             if isOtherSigintListener then (evs1, Returned)
             else (evs1 @ [ProcessKill (if platform w = ''win32'' \<and> signal = ''SIGHUP''
                                         then ''SIGINT'' else signal)],
                   Returned))"


section \<open>Sample runs\<close>

definition example_file :: jsvalue where
  "example_file =
     JObj [(''services'',
            JObj [(''api'', JObj [(''path'', JStr ''./api''),
                                   (''params'', JObj [(''stage'', JStr ''${sls:stage}'')])])])]"

definition example_world :: world where
  "example_world =
     \<lparr>args = \<lparr>positional = [''deploy''], named = []\<rparr>,
      cwd = ''/app'',
      files = [(''/app/serverless-compose.yml'', example_file)],
      process_env = foo_env,
      platform = ''linux'',
      context_init_error = None,
      components_init_error = None,
      invoke_error = None,
      componentCommandsOutcomes = [(''api'', ''success'')],
      store_error_in_try = None,
      send_error_in_try = None,
      shutdown_error = None,
      store_error_in_catch = None,
      send_error_in_catch = None\<rparr>"

text \<open>The events that only happen once the command is being executed.\<close>

fun is_execution_event :: "event \<Rightarrow> bool" where
  "is_execution_event NewComponentsService = True"
| "is_execution_event ComponentsServiceInit = True"
| "is_execution_event (InvokeComponentCommand c m opts) = True"
| "is_execution_event (InvokeGlobalCommand m opts) = True"
| "is_execution_event (StoreTelemetryLocally t) = True"
| "is_execution_event SendTelemetry = True"
| "is_execution_event ContextShutdown = True"
| "is_execution_event (HandleError e) = True"
| "is_execution_event ev = False"


definition no_tokens_world :: world where
  "no_tokens_world = example_world\<lparr>args := \<lparr>positional = [], named = []\<rparr>\<rparr>"

definition failing_store_world :: world where
  "failing_store_world = example_world\<lparr>store_error_in_try := Some (ForeignError ''EACCES'')\<rparr>"


fun is_handle_error :: "event \<Rightarrow> bool" where
  "is_handle_error (HandleError e) = True"
| "is_handle_error ev = False"

fun is_process_kill :: "event \<Rightarrow> bool" where
  "is_process_kill (ProcessKill s) = True"
| "is_process_kill ev = False"

text \<open>The events of the Components Service: its construction, its initialisation and the
  command.\<close>

fun is_command_event :: "event \<Rightarrow> bool" where
  "is_command_event NewComponentsService = True"
| "is_command_event ComponentsServiceInit = True"
| "is_command_event (InvokeComponentCommand c m opts) = True"
| "is_command_event (InvokeGlobalCommand m opts) = True"
| "is_command_event ev = False"

text \<open>After the command, the \<open>try\<close> block stores the telemetry, sends it and shuts the
  context down, in this order: the error of the first of the three that throws.\<close>

definition first_error_after_command :: "world \<Rightarrow> error option" where
  "first_error_after_command w =
     (case store_error_in_try w of
        Some e \<Rightarrow> Some e
      | None \<Rightarrow> (case send_error_in_try w of Some e \<Rightarrow> Some e | None \<Rightarrow> shutdown_error w))"

definition failure_world :: world where
  "failure_world =
     example_world\<lparr>componentCommandsOutcomes := [(''api'', ''success''), (''web'', ''failure'')]\<rparr>"

definition failing_send_world :: world where
  "failing_send_world =
     example_world\<lparr>send_error_in_try := Some (ForeignError ''ECONNRESET''),
                   send_error_in_catch := Some (ForeignError ''ECONNRESET'')\<rparr>"



section \<open>Properties of the main flow and of the exit listeners\<close>

text \<open>C9 (the code at the failing input). With no positional token and no help flag, \<open>args._\<close> is
  the empty array, which is truthy: no help is rendered, the configuration is loaded and the
  global command with the empty name is invoked.\<close>

theorem runComponents_without_tokens:
  "RenderHelp \<notin> set (fst (runComponents no_tokens_world))
   \<and> InvokeGlobalCommand [] [] \<in> set (fst (runComponents no_tokens_world))
   \<and> snd (runComponents no_tokens_world) = Exit 0"
  by code_simp





lemma getServerlessFile_no_execution:
  "getServerlessFile w d = (evs, f) \<Longrightarrow> \<not> list_ex is_execution_event evs"
  by (auto simp: getServerlessFile_def Let_def split: option.splits)

lemma load_configuration_no_execution:
  "\<not> list_ex is_execution_event (fst (load_configuration w opts))"
proof -
  obtain evs f where g: "getServerlessFile w (cwd w) = (evs, f)"
    by (cases "getServerlessFile w (cwd w)") auto
  note e = getServerlessFile_no_execution[OF g]
  show ?thesis
  proof (cases "truthy f")
    case False
    then show ?thesis using e by (simp add: load_configuration_def g)
  next
    case True
    note t = this
    show ?thesis
    proof (cases "isComponentsTemplate f")
      case (Inl err)
      then show ?thesis using e t by (simp add: load_configuration_def g)
    next
      case (Inr b)
      note i = this
      show ?thesis
      proof (cases b)
        case False
        then show ?thesis using e t i by (simp add: load_configuration_def g)
      next
        case True
        note b = this
        show ?thesis
        proof (cases "get_property f ''name''")
          case (Inl err)
          then show ?thesis using e t i b by (simp add: load_configuration_def g)
        next
          case (Inr name)
          then show ?thesis using e t i b
            by (simp add: load_configuration_def g Let_def split: option.split sum.split)
        qed
      qed
    qed
  qed
qed

lemma execution_event_kinds:
  "list_ex is_handle_error evs \<Longrightarrow> list_ex is_execution_event evs"
  "list_ex is_command_event evs \<Longrightarrow> list_ex is_execution_event evs"
  by (induction evs) (auto elim: is_handle_error.elims is_command_event.elims)

lemma runComponents_routed:
  "\<not> help_requested (args w) \<Longrightarrow> route (args w) = (c, m, opts) \<Longrightarrow>
   runComponents w = run_routed w c m opts"
  by (simp add: runComponents_def array_truthy_def)


lemma run_routed_try_catch:
  assumes "load_configuration w opts = (evs0, Inr (ctx, resolved))" "reserved_option opts = None"
  shows "run_routed w c m opts =
           (evs0 @ fst (try_catch w
                      \<lparr>rs_options = Some opts, rs_method = Some m,
                       rs_configurationForTelemetry = Some resolved, rs_componentName = c,
                       rs_context = Some ctx\<rparr> ctx c m opts),
            snd (try_catch w
                      \<lparr>rs_options = Some opts, rs_method = Some m,
                       rs_configurationForTelemetry = Some resolved, rs_componentName = c,
                       rs_context = Some ctx\<rparr> ctx c m opts))"
  using assms by (simp add: run_routed_def Let_def initial_run_state_def split: prod.splits)

lemma load_configuration_events:
  assumes "load_configuration w opts = (evs0, res)"
  shows "\<not> list_ex is_handle_error evs0" "\<not> list_ex is_command_event evs0"
  using load_configuration_no_execution[of w opts] execution_event_kinds[of evs0] assms by auto

lemma try_block_no_handle_error:
  "\<not> list_ex is_handle_error (fst (try_block w rs ctx c m opts))"
  by (auto simp: try_block_def Let_def split: option.splits if_splits)

lemma try_catch_no_error:
  assumes "components_init_error w = None" "invoke_error w = None"
    and "store_error_in_try w = None" "send_error_in_try w = None" "shutdown_error w = None"
  shows "snd (try_catch w rs ctx c m opts) =
           Exit (if ''failure'' \<in> set (map snd (componentCommandsOutcomes w)) then 1 else 0)"
    and "\<not> list_ex is_handle_error (fst (try_catch w rs ctx c m opts))"
  using assms by (auto simp: try_catch_def try_block_def Let_def split: option.splits)

text \<open>C2. Take a run in which no error is thrown: no help is asked for, the configuration is
  loaded, no reserved option is set, and the Components Service, the command, the storing and
  the sending of the telemetry and the shutdown of the context all return. The process then
  exits with status 1 if some recorded outcome is \<open>failure\<close> and with status 0 otherwise, in
  particular when every recorded outcome is \<open>success\<close>; the \<open>catch\<close> block is not entered.\<close>

theorem exit_status_from_outcomes:
  assumes "\<not> help_requested (args w)"
    and "route (args w) = (c, m, opts)"
    and "load_configuration w opts = (evs0, Inr (ctx, resolved))"
    and "reserved_option opts = None"
    and "components_init_error w = None" and "invoke_error w = None"
    and "store_error_in_try w = None" and "send_error_in_try w = None"
    and "shutdown_error w = None"
  shows "snd (runComponents w) =
           Exit (if ''failure'' \<in> set (map snd (componentCommandsOutcomes w)) then 1 else 0)
         \<and> \<not> list_ex is_handle_error (fst (runComponents w))"
proof -
  have run: "runComponents w = run_routed w c m opts"
    using runComponents_routed[OF assms(1,2)] .
  note r = run_routed_try_catch[OF assms(3,4), of c m]
  note t = try_catch_no_error[OF assms(5,6,7,8,9)]
  show ?thesis
    using load_configuration_events(1)[OF assms(3)] t
    by (simp add: run r)
qed

text \<open>C2 (witness): on the sample project, the run with the outcomes \<open>success\<close> and \<open>failure\<close>
  exits with status 1 without entering the \<open>catch\<close> block, and the run whose only outcome is
  \<open>success\<close> exits with status 0.\<close>

theorem exit_status_from_outcomes_witness:
  "snd (runComponents failure_world) = Exit 1
   \<and> \<not> list_ex is_handle_error (fst (runComponents failure_world))
   \<and> snd (runComponents example_world) = Exit 0"
proof -
  have h: "\<not> help_requested (args failure_world)" "\<not> help_requested (args example_world)"
    by code_simp+
  have r: "route (args failure_world) = (None, ''deploy'', [])"
    "route (args example_world) = (None, ''deploy'', [])"
    by code_simp+
  have "\<not> isl (snd (load_configuration failure_world []))" by code_simp
  then obtain evs1 ctx1 res1 where
    l1: "load_configuration failure_world [] = (evs1, Inr (ctx1, res1))"
    by (cases "load_configuration failure_world []"; cases "snd (load_configuration failure_world [])") auto
  have "\<not> isl (snd (load_configuration example_world []))" by code_simp
  then obtain evs2 ctx2 res2 where
    l2: "load_configuration example_world [] = (evs2, Inr (ctx2, res2))"
    by (cases "load_configuration example_world []"; cases "snd (load_configuration example_world [])") auto
  have o: "reserved_option [] = None" by code_simp
  have e1: "components_init_error failure_world = None" "invoke_error failure_world = None"
    "store_error_in_try failure_world = None" "send_error_in_try failure_world = None"
    "shutdown_error failure_world = None"
    by code_simp+
  have e2: "components_init_error example_world = None" "invoke_error example_world = None"
    "store_error_in_try example_world = None" "send_error_in_try example_world = None"
    "shutdown_error example_world = None"
    by code_simp+
  have f1: "''failure'' \<in> set (map snd (componentCommandsOutcomes failure_world))" by code_simp
  have f2: "''failure'' \<notin> set (map snd (componentCommandsOutcomes example_world))" by code_simp
  from exit_status_from_outcomes[OF h(1) r(1) l1 o e1]
    exit_status_from_outcomes[OF h(2) r(2) l2 o e2] f1 f2
  show ?thesis by simp
qed





lemma try_catch_after_command:
  assumes "components_init_error w = None" "invoke_error w = None"
    and "''failure'' \<notin> set (map snd (componentCommandsOutcomes w))"
  shows "case first_error_after_command w of
           None \<Rightarrow>
             snd (try_catch w rs ctx c m opts) = Exit 0
             \<and> \<not> list_ex is_handle_error (fst (try_catch w rs ctx c m opts))
         | Some e \<Rightarrow>
             fst (try_catch w rs ctx c m opts) =
                fst (try_block w rs ctx c m opts)
                  @ [HandleError e, StoreTelemetryLocally (telemetry_of rs ctx (Some e) None)]
                  @ (case store_error_in_catch w of None \<Rightarrow> [SendTelemetry] | Some e' \<Rightarrow> [])
             \<and> snd (try_catch w rs ctx c m opts) =
                 (case store_error_in_catch w of
                    Some e' \<Rightarrow> Thrown e'
                  | None \<Rightarrow> (case send_error_in_catch w of Some e' \<Rightarrow> Thrown e' | None \<Rightarrow> Exit 1))"
  using assms
  by (auto simp: first_error_after_command_def try_catch_def try_block_def catch_block_def Let_def
      split: option.splits)

text \<open>C3 (counterexample). Command execution succeeds and the only outcome is \<open>success\<close>, but
  storing the telemetry throws: the process exits with status 1. When the sending throws, in
  the \<open>try\<close> block and again in the \<open>catch\<close> block, the error leaves the main flow.\<close>

theorem telemetry_store_failure_changes_exit_status:
  "components_init_error failing_store_world = None
   \<and> invoke_error failing_store_world = None
   \<and> map snd (componentCommandsOutcomes failing_store_world) = [''success'']
   \<and> store_error_in_try failing_store_world = Some (ForeignError ''EACCES'')
   \<and> snd (runComponents failing_store_world) = Exit 1
   \<and> snd (runComponents example_world) = Exit 0
   \<and> snd (runComponents failing_send_world) = Thrown (ForeignError ''ECONNRESET'')"
  by code_simp

text \<open>C3 (amended). Take a run that reaches command execution (no help asked for, the
  configuration loaded, no reserved option set) in which the Components Service initialises,
  the command returns and no outcome is \<open>failure\<close>. When the storing of the telemetry, its
  sending and the shutdown of the context all return, the process exits with status 0 and the
  \<open>catch\<close> block is not entered. When one of them throws, the \<open>catch\<close> block takes over with
  the error of the first that does: it reports this error, for the first time in the run,
  stores a telemetry record made of the resolved configuration, the options, the command, the
  component, the context and this error, sends the telemetry, and the process exits with
  status 1; unless the storing of the \<open>catch\<close> block throws (nothing is sent then) or its
  sending throws, and that error leaves the main flow.\<close>

theorem telemetry_failure_goes_to_catch_block:
  assumes "\<not> help_requested (args w)"
    and "route (args w) = (c, m, opts)"
    and "load_configuration w opts = (evs0, Inr (ctx, resolved))"
    and "reserved_option opts = None"
    and "components_init_error w = None" and "invoke_error w = None"
    and "''failure'' \<notin> set (map snd (componentCommandsOutcomes w))"
  shows "case first_error_after_command w of
           None \<Rightarrow>
             snd (runComponents w) = Exit 0 \<and> \<not> list_ex is_handle_error (fst (runComponents w))
         | Some e \<Rightarrow>
             (\<exists>evs. fst (runComponents w) =
                      evs @ [HandleError e,
                             StoreTelemetryLocally
                               \<lparr>t_configuration = Some resolved, t_options = Some opts,
                                t_command = Some m, t_componentName = c, t_context = ctx,
                                t_error = Some e, t_interruptSignal = None\<rparr>]
                          @ (case store_error_in_catch w of
                               None \<Rightarrow> [SendTelemetry]
                             | Some e' \<Rightarrow> [])
                    \<and> \<not> list_ex is_handle_error evs)
             \<and> snd (runComponents w) =
                 (case store_error_in_catch w of
                    Some e' \<Rightarrow> Thrown e'
                  | None \<Rightarrow> (case send_error_in_catch w of Some e' \<Rightarrow> Thrown e' | None \<Rightarrow> Exit 1))"
proof -
  define rs where "rs = \<lparr>rs_options = Some opts, rs_method = Some m,
                       rs_configurationForTelemetry = Some resolved, rs_componentName = c,
                       rs_context = Some ctx\<rparr>"
  have run: "runComponents w = (evs0 @ fst (try_catch w rs ctx c m opts),
                                snd (try_catch w rs ctx c m opts))"
    using runComponents_routed[OF assms(1,2)] run_routed_try_catch[OF assms(3,4), of c m]
    by (simp add: rs_def)
  note t = try_catch_after_command[OF assms(5,6,7), of rs ctx c m opts]
  show ?thesis
  proof (cases "first_error_after_command w")
    case None
    then show ?thesis using t load_configuration_events(1)[OF assms(3)] by (simp add: run)
  next
    case (Some e)
    have tel: "telemetry_of rs ctx (Some e) None =
                 \<lparr>t_configuration = Some resolved, t_options = Some opts,
                  t_command = Some m, t_componentName = c, t_context = ctx,
                  t_error = Some e, t_interruptSignal = None\<rparr>"
      by (simp add: telemetry_of_def rs_def)
    have ne: "\<not> list_ex is_handle_error (evs0 @ fst (try_block w rs ctx c m opts))"
      using load_configuration_events(1)[OF assms(3)] try_block_no_handle_error[of w rs ctx c m opts]
      by simp
    have f: "fst (runComponents w) =
               (evs0 @ fst (try_block w rs ctx c m opts))
                 @ [HandleError e,
                    StoreTelemetryLocally
                      \<lparr>t_configuration = Some resolved, t_options = Some opts,
                       t_command = Some m, t_componentName = c, t_context = ctx,
                       t_error = Some e, t_interruptSignal = None\<rparr>]
                 @ (case store_error_in_catch w of None \<Rightarrow> [SendTelemetry] | Some e' \<Rightarrow> [])"
      using t Some tel by (simp add: run)
    have s: "snd (runComponents w) =
                 (case store_error_in_catch w of
                    Some e' \<Rightarrow> Thrown e'
                  | None \<Rightarrow> (case send_error_in_catch w of Some e' \<Rightarrow> Thrown e' | None \<Rightarrow> Exit 1))"
      using t Some by (simp add: run)
    show ?thesis using f ne s Some by (simp only: option.case) blast
  qed
qed

text \<open>C3 (witness): the sample run with a failing telemetry store. The \<open>catch\<close> block reports
  the error of the store, stores a record with this error, sends the telemetry, and the
  process exits with status 1.\<close>

theorem telemetry_failure_goes_to_catch_block_witness:
  "(\<exists>evs t. fst (runComponents failing_store_world) =
              evs @ [HandleError (ForeignError ''EACCES''), StoreTelemetryLocally t, SendTelemetry]
            \<and> t_error t = Some (ForeignError ''EACCES'') \<and> t_command t = Some ''deploy''
            \<and> \<not> list_ex is_handle_error evs)
   \<and> snd (runComponents failing_store_world) = Exit 1"
proof -
  have h: "\<not> help_requested (args failing_store_world)" by code_simp
  have r: "route (args failing_store_world) = (None, ''deploy'', [])" by code_simp
  have "\<not> isl (snd (load_configuration failing_store_world []))" by code_simp
  then obtain evs0 ctx res where
    l: "load_configuration failing_store_world [] = (evs0, Inr (ctx, res))"
    by (cases "load_configuration failing_store_world []";
        cases "snd (load_configuration failing_store_world [])") auto
  have o: "reserved_option [] = None" by code_simp
  have e: "components_init_error failing_store_world = None"
    "invoke_error failing_store_world = None"
    "''failure'' \<notin> set (map snd (componentCommandsOutcomes failing_store_world))"
    by code_simp+
  have f: "first_error_after_command failing_store_world = Some (ForeignError ''EACCES'')"
    "store_error_in_catch failing_store_world = None"
    "send_error_in_catch failing_store_world = None"
    by code_simp+
  from telemetry_failure_goes_to_catch_block[OF h r l o e]
  show ?thesis unfolding f by (simp only: option.case) auto
qed

text \<open>C4 (the code at the failing input). When the error arrives before the run context has
  been constructed, the listener stores the telemetry with a context of its own and then
  reads \<open>context.logger\<close> of the variable that is still undefined: a \<open>TypeError\<close> leaves
  the listener, the error is not reported and \<open>process.exit(1)\<close> is not reached.\<close>

theorem uncaughtException_before_context:
  "uncaughtException_listener w (rs\<lparr>rs_context := None\<rparr>) err None send_error =
     ([NewContext (fallback_context w),
       StoreTelemetryLocally
         (telemetry_of (rs\<lparr>rs_context := None\<rparr>) (fallback_context w) (Some err) None)],
      Thrown (TypeError ''Cannot read properties of undefined (reading logger)''))"
  by (simp add: uncaughtException_listener_def)

text \<open>C10 (counterexample). No other listener is registered for the signal and the call that
  stores the telemetry throws: the error leaves the listener, which neither returns nor sends
  the signal to the process.\<close>

theorem signal_listener_store_failure:
  "signal_listener example_world initial_run_state ''SIGTERM'' 0 (Some (ForeignError ''EACCES''))
     = ([NewContext (fallback_context example_world),
         StoreTelemetryLocally
           \<lparr>t_configuration = None, t_options = None, t_command = None, t_componentName = None,
            t_context = fallback_context example_world, t_error = None,
            t_interruptSignal = Some ''SIGTERM''\<rparr>],
        Thrown (ForeignError ''EACCES''))
   \<and> \<not> list_ex is_process_kill
         (fst (signal_listener example_world initial_run_state ''SIGTERM'' 0
                 (Some (ForeignError ''EACCES''))))"
  by code_simp

text \<open>C10 (amended). The listener of a signal first stores a telemetry record: its
  configuration, options, command and component are the current values of the shared
  variables of the run, its context is the run context, or a context of the listener's own
  (constructed just before) when there is none yet, it has no error, and its signal is the
  one received. If the storing throws, the error leaves the listener and nothing else
  happens. Otherwise, if another listener is registered for the signal, the listener returns
  and the process is not killed; if there is none, the last thing it does is to send the
  signal to the process itself, \<open>SIGINT\<close> in place of \<open>SIGHUP\<close> on \<open>win32\<close>.\<close>

theorem signal_listener_behaviour:
  "signal_listener w rs signal listenerCount store_error =
     ((case rs_context rs of Some c \<Rightarrow> [] | None \<Rightarrow> [NewContext (fallback_context w)])
        @ [StoreTelemetryLocally
             \<lparr>t_configuration = rs_configurationForTelemetry rs, t_options = rs_options rs,
              t_command = rs_method rs, t_componentName = rs_componentName rs,
              t_context = (case rs_context rs of Some c \<Rightarrow> c | None \<Rightarrow> fallback_context w),
              t_error = None, t_interruptSignal = Some signal\<rparr>]
        @ (case store_error of
             Some e \<Rightarrow> []
           | None \<Rightarrow>
               if listenerCount \<noteq> 0 then []
               else [ProcessKill (if platform w = ''win32'' \<and> signal = ''SIGHUP''
                                  then ''SIGINT'' else signal)]),
      (case store_error of Some e \<Rightarrow> Thrown e | None \<Rightarrow> Returned))
   \<and> (listenerCount \<noteq> 0 \<or> store_error \<noteq> None \<longrightarrow>
        \<not> list_ex is_process_kill (fst (signal_listener w rs signal listenerCount store_error)))"
  by (cases "rs_context rs"; cases store_error)
     (auto simp: signal_listener_def Let_def telemetry_of_def)

text \<open>C10 (witness): \<open>SIGHUP\<close> on \<open>win32\<close> with no other listener, before the run context
  exists, and \<open>SIGINT\<close> with another listener registered.\<close>

theorem signal_listener_behaviour_witness:
  "signal_listener (example_world\<lparr>platform := ''win32''\<rparr>) initial_run_state ''SIGHUP'' 0 None
     = ([NewContext (fallback_context example_world),
         StoreTelemetryLocally
           \<lparr>t_configuration = None, t_options = None, t_command = None, t_componentName = None,
            t_context = fallback_context example_world, t_error = None,
            t_interruptSignal = Some ''SIGHUP''\<rparr>,
         ProcessKill ''SIGINT''],
        Returned)
   \<and> \<not> list_ex is_process_kill (fst (signal_listener example_world initial_run_state ''SIGINT'' 1 None))"
proof -
  have a: "rs_context initial_run_state = None" "rs_configurationForTelemetry initial_run_state = None"
    "rs_options initial_run_state = None" "rs_method initial_run_state = None"
    "rs_componentName initial_run_state = None"
    by (simp_all add: initial_run_state_def)
  have b: "platform (example_world\<lparr>platform := ''win32''\<rparr>) = ''win32''" by simp
  have c: "fallback_context (example_world\<lparr>platform := ''win32''\<rparr>) = fallback_context example_world"
    by (simp add: fallback_context_def)
  from signal_listener_behaviour[where rs = initial_run_state
      and w = "example_world\<lparr>platform := ''win32''\<rparr>" and signal = "''SIGHUP''"
      and listenerCount = 0 and store_error = None]
    signal_listener_behaviour[where rs = initial_run_state
      and w = example_world and signal = "''SIGINT''" and listenerCount = 1 and store_error = None]
  show ?thesis using a b c by auto
qed

section \<open>Properties of the resolver\<close>

lemma word_char_not_special:
  "is_word_char c \<Longrightarrow> c \<noteq> CHR ''$'' \<and> c \<noteq> CHR ''}'' \<and> c \<noteq> CHR '':'' \<and> c \<noteq> CHR ''{'' \<and> c \<noteq> CHR ''.'' \<and> c \<noteq> CHR ''-''"
  by (auto simp: is_word_char_def is_digit_def in_range_def)

lemma match_here_regex_Nil [simp]: "match_here regex [] = None"
  by (simp add: regex_def lit_def)

lemma match_here_regex_not_dollar:
  "x \<noteq> CHR ''$'' \<Longrightarrow> match_here regex (x # xs) = None"
  by (simp add: regex_def lit_def class_matches_def)

lemma scan_regex_dollar_free:
  "CHR ''$'' \<notin> set s \<Longrightarrow> scan regex k s = []"
proof (induction s arbitrary: k)
  case Nil
  then show ?case by simp
next
  case (Cons x xs)
  then show ?case by (cases k) (auto simp: match_here_regex_not_dollar)
qed

text \<open>C5 (the code at the failing input). A string with two \<open>${sls:stage}\<close> placeholders: the
  second \<open>slsStageRegex.test\<close> starts at the \<open>lastIndex\<close> left by the first and fails, so the
  recognized source \<open>sls\<close> is put into the set of unrecognized sources and the run fails
  naming it.\<close>

theorem repeated_stage_placeholder_reported_as_unrecognized:
  "resolveConfigurationVariables foo_env (JObj [(''a'', JStr ''${sls:stage}-${sls:stage}'')]) ''dev'' []
     = Some (Inl (unrecognized_variable_sources [''sls'']))"
  by code_simp


lemma self_referring_pass:
  "walk self_referring_env ''dev'' (fresh_pass []) (JObj [(''a'', JStr ''${env:FOO}'')])
     = Inr (\<lparr>slsStageLastIndex = 0, envLastIndex = 10, variableResolved = True,
             unrecognizedVariableSources = []\<rparr>, JObj [(''a'', JStr ''${env:FOO}'')])"
  by code_simp

lemma self_referring_never_returns:
  assumes "resolveConfigurationVariables e c s src = Some y"
  shows "\<not> (e = self_referring_env \<and> c = JObj [(''a'', JStr ''${env:FOO}'')] \<and> s = ''dev'' \<and> src = [])"
proof (rule resolveConfigurationVariables.raw_induct
    [where P = "\<lambda>e c s src y. \<not> (e = self_referring_env \<and> c = JObj [(''a'', JStr ''${env:FOO}'')]
                                     \<and> s = ''dev'' \<and> src = [])", OF _ assms])
  fix f e c s src and y :: "error + jsvalue"
  assume ih: "\<And>e c s src y. f e c s src = Some y \<Longrightarrow>
      \<not> (e = self_referring_env \<and> c = JObj [(''a'', JStr ''${env:FOO}'')] \<and> s = ''dev'' \<and> src = [])"
    and body: "(case walk e s (fresh_pass src) c of
      Inl e \<Rightarrow> Some (Inl e)
      | Inr (st, resolvedConfiguration) \<Rightarrow>
          if variableResolved st
          then f e resolvedConfiguration s (unrecognizedVariableSources st)
          else if unrecognizedVariableSources st \<noteq> []
               then Some (Inl (unrecognized_variable_sources (unrecognizedVariableSources st)))
               else Some (Inr resolvedConfiguration)) = Some y"
  show "\<not> (e = self_referring_env \<and> c = JObj [(''a'', JStr ''${env:FOO}'')] \<and> s = ''dev'' \<and> src = [])"
  proof
    assume a: "e = self_referring_env \<and> c = JObj [(''a'', JStr ''${env:FOO}'')] \<and> s = ''dev'' \<and> src = []"
    then have "f e c s src = Some y"
      using body by (simp only: self_referring_pass) simp
    from ih[OF this] a show False by blast
  qed
qed

text \<open>C1 (counterexample). The only placeholder is \<open>${env:FOO}\<close> and \<open>FOO\<close> is defined, with the
  value \<open>${env:FOO}\<close>: every pass substitutes and asks for another pass, and the function
  never returns.\<close>

theorem self_referring_variable_never_resolves:
  "self_referring_env ''FOO'' \<noteq> None
   \<and> placeholders (JObj [(''a'', JStr ''${env:FOO}'')]) = [env_placeholder ''FOO'']
   \<and> resolveConfigurationVariables self_referring_env (JObj [(''a'', JStr ''${env:FOO}'')]) ''dev'' [] = None"
proof -
  have a: "self_referring_env ''FOO'' \<noteq> None" by (simp add: self_referring_env_def)
  have b: "placeholders (JObj [(''a'', JStr ''${env:FOO}'')]) = [env_placeholder ''FOO'']" by code_simp
  have c: "resolveConfigurationVariables self_referring_env (JObj [(''a'', JStr ''${env:FOO}'')]) ''dev'' [] = None"
  proof (cases "resolveConfigurationVariables self_referring_env (JObj [(''a'', JStr ''${env:FOO}'')]) ''dev'' []")
    case None
    then show ?thesis .
  next
    case (Some y)
    from self_referring_never_returns[OF Some] show ?thesis by simp
  qed
  show ?thesis using a b c by simp
qed

lemma star_no_close:
  "CHR ''}'' \<notin> set N \<Longrightarrow> \<not> class_matches cls (CHR '':'') \<Longrightarrow>
   match_here [(cls, ZeroOrMore), ([Lit (CHR ''}'')], Once)] (N @ CHR '':'' # rest) = None"
  by (induction N) (auto simp: class_matches_def)

lemma plus_no_close:
  "CHR ''}'' \<notin> set N \<Longrightarrow> \<not> class_matches cls (CHR '':'') \<Longrightarrow>
   match_here [(cls, OneOrMore), ([Lit (CHR ''}'')], Once)] (N @ CHR '':'' # rest) = None"
  by (cases N) (auto simp: star_no_close)

lemma regex_rejects_second_colon:
  "CHR ''}'' \<notin> set N \<Longrightarrow> match_here regex (''${env:'' @ N @ CHR '':'' # rest) = None"
  by (simp add: regex_def lit_def class_matches_def is_word_char_def is_digit_def in_range_def plus_no_close)

lemma no_placeholder_with_second_colon:
  assumes "CHR ''}'' \<notin> set N" "CHR ''$'' \<notin> set N" "CHR ''$'' \<notin> set R"
  shows "string_match regex (''${env:'' @ N @ '':'' @ R @ ''}'') = []"
proof -
  have "scan regex 0 (''{env:'' @ N @ '':'' @ R @ ''}'') = []"
    using assms by (intro scan_regex_dollar_free) auto
  then show ?thesis
    using regex_rejects_second_colon[OF assms(1), of "R @ ''}''"]
    by (simp add: string_match_def)
qed

text \<open>C7 (amended). A string \<open>${env:N:R}\<close>, where \<open>N\<close> has no \<open>}\<close> and neither \<open>N\<close> nor \<open>R\<close> has a
  \<open>$\<close>, is not a placeholder for the resolver: \<open>regex\<close> allows no colon in the path, so the
  callback leaves the string and the state of the pass as they are, whatever the
  environment holds, and a configuration with this one string is returned unchanged.\<close>

theorem env_placeholder_with_second_colon_untouched:
  assumes "CHR ''}'' \<notin> set N" "CHR ''$'' \<notin> set N" "CHR ''$'' \<notin> set R"
  shows "visit_string env stg st (''${env:'' @ N @ '':'' @ R @ ''}'')
           = Inr (st, JStr (''${env:'' @ N @ '':'' @ R @ ''}''))
    \<and> resolveConfigurationVariables env (JObj [(k, JStr (''${env:'' @ N @ '':'' @ R @ ''}''))]) stg []
         = Some (Inr (JObj [(k, JStr (''${env:'' @ N @ '':'' @ R @ ''}''))]))"
proof -
  define leaf where "leaf = ''${env:'' @ N @ '':'' @ R @ ''}''"
  have v: "visit_string env stg st' leaf = Inr (st', JStr leaf)" for st'
    using no_placeholder_with_second_colon[OF assms] by (simp add: visit_string_def leaf_def)
  have "resolveConfigurationVariables env (JObj [(k, JStr leaf)]) stg [] = Some (Inr (JObj [(k, JStr leaf)]))"
    by (subst resolveConfigurationVariables.simps) (simp add: v fresh_pass_def)
  then show ?thesis using v unfolding leaf_def by blast
qed

text \<open>C7 (witness): \<open>${env:FOO:bar}\<close>.\<close>

theorem env_placeholder_with_second_colon_untouched_witness:
  "resolveConfigurationVariables foo_env (JObj [(''a'', JStr ''${env:FOO:bar}'')]) ''dev'' []
         = Some (Inr (JObj [(''a'', JStr ''${env:FOO:bar}'')]))"
proof -
  have a: "CHR ''}'' \<notin> set ''FOO''" "CHR ''$'' \<notin> set ''FOO''" "CHR ''$'' \<notin> set ''bar''" by simp_all
  from env_placeholder_with_second_colon_untouched[OF a, of foo_env "''dev''" "fresh_pass []" "''a''"]
  show ?thesis by simp
qed

text \<open>C7 (counterexample). \<open>FOO\<close> is defined, and \<open>${env:FOO:bar}\<close> is still there after the
  resolution: the value of \<open>FOO\<close> has not been substituted.\<close>

theorem second_colon_leaves_placeholder:
  "foo_env ''FOO'' = Some (Variable ''bar'')
   \<and> resolveConfigurationVariables foo_env (JObj [(''a'', JStr ''${env:FOO:bar}'')]) ''dev'' []
         = Some (Inr (JObj [(''a'', JStr ''${env:FOO:bar}'')]))"
proof -
  have a: "foo_env ''FOO'' = Some (Variable ''bar'')" by (simp add: foo_env_def)
  have b: "resolveConfigurationVariables foo_env (JObj [(''a'', JStr ''${env:FOO:bar}'')]) ''dev'' []
         = Some (Inr (JObj [(''a'', JStr ''${env:FOO:bar}'')]))"
    by code_simp
  show ?thesis using a b by simp
qed

subsection \<open>From the tree to the list of its strings\<close>



lemma visit_all_append:
  "visit_all env stg st (xs @ ys) =
     (case visit_all env stg st xs of
        Inl e \<Rightarrow> Inl e
      | Inr (st', xs') \<Rightarrow>
          (case visit_all env stg st' ys of
             Inl e \<Rightarrow> Inl e
           | Inr (st'', ys') \<Rightarrow> Inr (st'', xs' @ ys')))"
  by (induction xs arbitrary: st) (auto split: sum.splits prod.splits)

lemma walk_visit_all:
  "map_sum id (map_prod id strings_of) (walk env stg st t)
     = map_sum id (map_prod id (\<lambda>ns. concat (map strings_of ns)))
         (visit_all env stg st (strings_of t))"
  "map_sum id (map_prod id strings_of_elements) (walk_elements env stg st xs)
     = map_sum id (map_prod id (\<lambda>ns. concat (map strings_of ns)))
         (visit_all env stg st (strings_of_elements xs))"
  "map_sum id (map_prod id strings_of_properties) (walk_properties env stg st kvs)
     = map_sum id (map_prod id (\<lambda>ns. concat (map strings_of ns)))
         (visit_all env stg st (strings_of_properties kvs))"
proof (induction env stg st t and env stg st xs and env stg st kvs
      rule: walk_walk_elements_walk_properties.induct)
  case (1 env stg st s)
  then show ?case by (auto split: sum.splits prod.splits)
next
  case (2 env stg st xs)
  then show ?case by (cases "walk_elements env stg st xs") auto
next
  case (3 env stg st kvs)
  then show ?case by (cases "walk_properties env stg st kvs") auto
next
  case (10 env stg st x xs)
  show ?case
  proof (cases "walk env stg st x")
    case (Inl e)
    have "visit_all env stg st (strings_of x) = Inl e"
      using 10(1) Inl by (cases "visit_all env stg st (strings_of x)") auto
    then show ?thesis using Inl by (simp add: visit_all_append)
  next
    case (Inr p)
    obtain st' x' where p: "p = (st', x')" by (cases p) auto
    obtain ns where h: "visit_all env stg st (strings_of x) = Inr (st', ns)"
      "concat (map strings_of ns) = strings_of x'"
      using 10(1) Inr p by (cases "visit_all env stg st (strings_of x)") auto
    note ih = 10(2)[OF Inr[unfolded p] refl]
    show ?thesis
    proof (cases "walk_elements env stg st' xs")
      case (Inl e)
      then have "visit_all env stg st' (strings_of_elements xs) = Inl e"
        using ih by (cases "visit_all env stg st' (strings_of_elements xs)") auto
      then show ?thesis using Inl by (simp add: visit_all_append Inr p h)
    next
      case (Inr q)
      obtain st'' xs' where q: "q = (st'', xs')" by (cases q) auto
      obtain ms where "visit_all env stg st' (strings_of_elements xs) = Inr (st'', ms)"
        "concat (map strings_of ms) = strings_of_elements xs'"
        using ih Inr q by (cases "visit_all env stg st' (strings_of_elements xs)") auto
      then show ?thesis using Inr q by (simp add: visit_all_append \<open>walk env stg st x = Inr p\<close> p h)
    qed
  qed
next
  case (12 env stg st k x kvs)
  show ?case
  proof (cases "walk env stg st x")
    case (Inl e)
    have "visit_all env stg st (strings_of x) = Inl e"
      using 12(1) Inl by (cases "visit_all env stg st (strings_of x)") auto
    then show ?thesis using Inl by (simp add: visit_all_append)
  next
    case (Inr p)
    obtain st' x' where p: "p = (st', x')" by (cases p) auto
    obtain ns where h: "visit_all env stg st (strings_of x) = Inr (st', ns)"
      "concat (map strings_of ns) = strings_of x'"
      using 12(1) Inr p by (cases "visit_all env stg st (strings_of x)") auto
    note ih = 12(2)[OF Inr[unfolded p] refl]
    show ?thesis
    proof (cases "walk_properties env stg st' kvs")
      case (Inl e)
      then have "visit_all env stg st' (strings_of_properties kvs) = Inl e"
        using ih by (cases "visit_all env stg st' (strings_of_properties kvs)") auto
      then show ?thesis using Inl by (simp add: visit_all_append Inr p h)
    next
      case (Inr q)
      obtain st'' kvs' where q: "q = (st'', kvs')" by (cases q) auto
      obtain ms where "visit_all env stg st' (strings_of_properties kvs) = Inr (st'', ms)"
        "concat (map strings_of ms) = strings_of_properties kvs'"
        using ih Inr q by (cases "visit_all env stg st' (strings_of_properties kvs)") auto
      then show ?thesis using Inr q by (simp add: visit_all_append \<open>walk env stg st x = Inr p\<close> p h)
    qed
  qed
qed simp_all

lemma walk_error:
  "visit_all env stg st (strings_of t) = Inl e \<Longrightarrow> walk env stg st t = Inl e"
  using walk_visit_all(1)[of env stg st t] by (cases "walk env stg st t") auto

lemma walk_result:
  "visit_all env stg st (strings_of t) = Inr (st', ns) \<Longrightarrow>
     \<exists>t'. walk env stg st t = Inr (st', t') \<and> strings_of t' = concat (map strings_of ns)"
  using walk_visit_all(1)[of env stg st t] by (cases "walk env stg st t") auto

lemma strings_of_JStr [simp]:
  "concat (map strings_of (map JStr ss)) = ss"
  "concat (map (strings_of \<circ> JStr) ss) = ss"
  by (induction ss) auto

lemma JStr_Cons_map [simp]: "JStr s # map JStr ss = map JStr xs \<longleftrightarrow> xs = s # ss"
  by (cases xs) (auto simp: inj_on_def)

lemma visit_string_for_matches:
  "visit_string env stg st s = for_matches env stg s (string_match regex s) st (JStr s)"
  by (cases "string_match regex s") (simp_all add: visit_string_def)

subsection \<open>The patterns on placeholders\<close>

lemma name_char_facts:
  assumes "is_name_char c"
  shows "c \<noteq> CHR ''$''" "c \<noteq> CHR ''}''" "c \<noteq> CHR '':''"
    "class_matches [WordChar, Range (CHR ''.'') (CHR ''_'')] c"
    "class_matches [WordChar, Digit, Lit (CHR ''.''), Lit (CHR ''-'')] c"
    "\<not> is_word_char c \<Longrightarrow> c = CHR ''.''"
  using assms
  by (auto simp: is_name_char_def is_word_char_def is_digit_def in_range_def class_matches_def)

lemma regex_test_False:
  "\<not> fst (regex_test r k s) \<Longrightarrow> regex_test r k s = (False, 0)"
  by (auto simp: regex_test_def split: if_splits option.splits)

lemma search_from_None:
  "\<forall>j \<le> length t. match_here r (drop j t) = None \<Longrightarrow> search_from r t i = None"
proof (induction t arbitrary: i)
  case Nil
  then show ?case by simp
next
  case (Cons x xs)
  have a: "match_here r (x # xs) = None" using Cons.prems by (metis drop0 le0)
  have "\<forall>j \<le> length xs. match_here r (drop j xs) = None"
  proof (intro allI impI)
    fix j assume "j \<le> length xs"
    then have "match_here r (drop (Suc j) (x # xs)) = None" using Cons.prems by (metis Suc_le_mono length_Cons)
    then show "match_here r (drop j xs) = None" by simp
  qed
  from Cons.IH[OF this] a show ?case by simp
qed

lemma test_fails_after_dollar:
  assumes "CHR ''$'' \<notin> set rest"
    and "match_here r (CHR ''$'' # rest) = None"
    and "\<And>t. t = [] \<or> hd t \<noteq> CHR ''$'' \<Longrightarrow> match_here r t = None"
  shows "regex_test r k (CHR ''$'' # rest) = (False, 0)"
proof -
  have "match_here r (drop j (CHR ''$'' # rest)) = None" for j
  proof (cases j)
    case 0
    then show ?thesis using assms(2) by simp
  next
    case (Suc j')
    have "drop j' rest = [] \<or> hd (drop j' rest) \<noteq> CHR ''$''"
    proof (cases "drop j' rest")
      case Nil
      then show ?thesis by simp
    next
      case (Cons a as)
      then have "a \<in> set rest" by (metis in_set_dropD list.set_intros(1))
      then show ?thesis using assms(1) Cons by auto
    qed
    then show ?thesis using assms(3) Suc by simp
  qed
  then have "search_from r (drop k (CHR ''$'' # rest)) k = None"
    by (intro search_from_None) (simp del: drop_Suc_Cons)
  then show ?thesis by (simp add: regex_test_def del: drop_Suc_Cons)
qed

lemma sls_pattern_needs_dollar:
  "t = [] \<or> hd t \<noteq> CHR ''$'' \<Longrightarrow> match_here slsStageRegex t = None"
  by (cases t) (auto simp: slsStageRegex_def lit_def class_matches_def)

lemma env_pattern_needs_dollar:
  "t = [] \<or> hd t \<noteq> CHR ''$'' \<Longrightarrow> match_here envRegex t = None"
  by (cases t) (auto simp: envRegex_def lit_def class_matches_def)

lemma sls_test_on_env_placeholder:
  assumes "\<forall>c \<in> set V. is_name_char c"
  shows "regex_test slsStageRegex k (env_placeholder V) = (False, 0)"
proof -
  have a: "CHR ''$'' \<notin> set (''{env:'' @ V @ ''}'')"
    using assms name_char_facts(1) by auto
  have b: "match_here slsStageRegex (CHR ''$'' # ''{env:'' @ V @ ''}'') = None"
    by (simp add: slsStageRegex_def lit_def class_matches_def)
  from test_fails_after_dollar[OF a b sls_pattern_needs_dollar]
  show ?thesis by (simp add: env_placeholder_def)
qed

lemma star_to_close:
  "\<forall>c \<in> set V. class_matches cls c \<Longrightarrow> \<not> class_matches cls (CHR ''}'') \<Longrightarrow>
   match_here [(cls, ZeroOrMore), ([Lit (CHR ''}'')], Once)] (V @ CHR ''}'' # rest) = Some (length V + 1)"
  by (induction V) (auto simp: class_matches_def)

lemma plus_to_close:
  "V \<noteq> [] \<Longrightarrow> \<forall>c \<in> set V. class_matches cls c \<Longrightarrow> \<not> class_matches cls (CHR ''}'') \<Longrightarrow>
   match_here [(cls, OneOrMore), ([Lit (CHR ''}'')], Once)] (V @ CHR ''}'' # rest) = Some (length V + 1)"
  using star_to_close[of "tl V" cls rest] by (cases V) auto

lemma close_not_in_classes:
  "\<not> class_matches [WordChar] (CHR ''}'')"
  "\<not> class_matches [WordChar, Range (CHR ''.'') (CHR ''_'')] (CHR ''}'')"
  "\<not> class_matches [WordChar, Digit, Lit (CHR ''.''), Lit (CHR ''-'')] (CHR ''}'')"
  "\<not> class_matches [WordChar] (CHR ''.'')"
  by (auto simp: class_matches_def is_word_char_def is_digit_def in_range_def)

lemma env_name_match:
  assumes "V \<noteq> []" "\<forall>c \<in> set V. is_name_char c"
  shows "match_here [([WordChar], ZeroOrMore), ([WordChar, Range (CHR ''.'') (CHR ''_'')], OneOrMore),
            ([Lit (CHR ''}'')], Once)] (V @ CHR ''}'' # rest) = Some (length V + 1)"
  using assms
proof (induction V)
  case Nil
  then show ?case by simp
next
  case (Cons x V')
  have x: "class_matches [WordChar, Range (CHR ''.'') (CHR ''_'')] x"
    using Cons.prems name_char_facts(4) by simp
  have all: "\<forall>c \<in> set V'. class_matches [WordChar, Range (CHR ''.'') (CHR ''_'')] c"
    using Cons.prems name_char_facts(4) by simp
  have tail: "match_here [([WordChar, Range (CHR ''.'') (CHR ''_'')], OneOrMore), ([Lit (CHR ''}'')], Once)]
                (x # V' @ CHR ''}'' # rest) = Some (length (x # V') + 1)"
    using plus_to_close[of "x # V'" "[WordChar, Range (CHR ''.'') (CHR ''_'')]" rest] x all close_not_in_classes(2)
    by simp
  show ?case
  proof (cases "class_matches [WordChar] x")
    case False
    then show ?thesis using tail by simp
  next
    case True
    show ?thesis
    proof (cases "V' = []")
      case True
      then show ?thesis using tail \<open>class_matches [WordChar] x\<close> close_not_in_classes
        by simp
    next
      case False
      then have "match_here [([WordChar], ZeroOrMore), ([WordChar, Range (CHR ''.'') (CHR ''_'')], OneOrMore),
            ([Lit (CHR ''}'')], Once)] (V' @ CHR ''}'' # rest) = Some (length V' + 1)"
        using Cons by simp
      then show ?thesis using True by simp
    qed
  qed
qed

lemma env_pattern_on_env_placeholder:
  assumes "V \<noteq> []" "\<forall>c \<in> set V. is_name_char c"
  shows "match_here envRegex (env_placeholder V @ rest) = Some (length V + 7)"
  using env_name_match[OF assms, of rest]
  by (simp add: envRegex_def lit_def env_placeholder_def class_matches_def)

lemma env_test_on_env_placeholder:
  assumes "V \<noteq> []" "\<forall>c \<in> set V. is_name_char c"
  shows "regex_test envRegex 0 (env_placeholder V) = (True, length V + 7)"
proof -
  have "match_here envRegex (env_placeholder V) = Some (length V + 7)"
    using env_pattern_on_env_placeholder[OF assms, of "[]"] by simp
  moreover have "env_placeholder V = CHR ''$'' # ''{env:'' @ V @ ''}''"
    by (simp add: env_placeholder_def)
  ultimately show ?thesis by (simp add: regex_test_def)
qed

lemma split_on_absent: "c \<notin> set s \<Longrightarrow> split_on c s = [s]"
  by (induction s) auto

lemma env_placeholder_name:
  assumes "\<forall>c \<in> set V. is_name_char c"
  shows "element_text (referencedPropertyPath (env_placeholder V)) 1 = V"
proof -
  have "CHR '':'' \<notin> set V" using assms name_char_facts(3) by auto
  then have "split_on (CHR '':'') (''env:'' @ V) = [''env'', V]"
    by (simp add: split_on_absent)
  moreover have "substring 2 (length (env_placeholder V) - 1) (env_placeholder V) = ''env:'' @ V"
    by (simp add: substring_def env_placeholder_def)
  ultimately show ?thesis by (simp add: element_text_def referencedPropertyPath_def)
qed

subsection \<open>A configuration with one placeholder\<close>

lemma dollars_simps [simp]:
  "dollars [] = 0"
  "dollars (x # xs) = (if x = CHR ''$'' then 1 else 0) + dollars xs"
  "dollars (xs @ ys) = dollars xs + dollars ys"
  by (simp_all add: dollars_def)

lemma dollars_0: "dollars s = 0 \<longleftrightarrow> CHR ''$'' \<notin> set s"
  by (induction s) auto

lemma match_here_le: "match_here r s = Some n \<Longrightarrow> n \<le> length s"
  by (induction r s arbitrary: n rule: match_here.induct) (auto split: if_splits option.splits)

lemma match_here_regex_Some:
  "match_here regex s = Some n \<Longrightarrow> 0 < n \<and> n \<le> length s \<and> hd s = CHR ''$''"
proof -
  assume a: "match_here regex s = Some n"
  then obtain x xs where s: "s = x # xs" by (cases s) auto
  have x: "x = CHR ''$''" using a s match_here_regex_not_dollar[of x xs] by auto
  have "0 < n" using a s by (auto simp: regex_def lit_def split: if_splits)
  then show ?thesis using match_here_le[OF a] x s by simp
qed

lemma scan_regex_skip: "scan regex k s = scan regex 0 (drop k s)"
proof (induction s arbitrary: k)
  case Nil
  then show ?case by simp
next
  case (Cons x xs)
  then show ?case by (cases k) simp_all
qed

lemma scan_regex_Cons:
  "scan regex 0 s = mt # ms \<Longrightarrow>
     \<exists>pre post. s = pre @ mt @ post \<and> mt \<noteq> [] \<and> hd mt = CHR ''$'' \<and> ms = scan regex 0 post"
proof (induction s)
  case Nil
  then show ?case by simp
next
  case (Cons x xs)
  show ?case
  proof (cases "match_here regex (x # xs)")
    case None
    then have "scan regex 0 xs = mt # ms" using Cons.prems by simp
    from Cons.IH[OF this] obtain pre post where
      "xs = pre @ mt @ post" "mt \<noteq> []" "hd mt = CHR ''$''" "ms = scan regex 0 post" by blast
    then have "x # xs = (x # pre) @ mt @ post" by simp
    then show ?thesis using \<open>mt \<noteq> []\<close> \<open>hd mt = CHR ''$''\<close> \<open>ms = scan regex 0 post\<close> by blast
  next
    case (Some n)
    from match_here_regex_Some[OF Some] have n: "0 < n" "n \<le> length (x # xs)" "x = CHR ''$''" by simp_all
    have mt: "mt = take n (x # xs)" and ms: "ms = scan regex (n - 1) xs"
      using Cons.prems Some by simp_all
    have "ms = scan regex 0 (drop n (x # xs))"
      using ms n(1) scan_regex_skip[of "n - 1" xs] by (cases n) simp_all
    moreover have "x # xs = [] @ mt @ drop n (x # xs)" using mt by simp
    moreover have "mt \<noteq> []" "hd mt = CHR ''$''" using mt n by (cases n; simp)+
    ultimately show ?thesis by blast
  qed
qed

lemma string_match_has_dollar:
  "string_match regex s \<noteq> [] \<Longrightarrow> 1 \<le> dollars s"
proof -
  assume "string_match regex s \<noteq> []"
  then obtain mt ms where "scan regex 0 s = mt # ms"
    by (cases "scan regex 0 s") (auto simp: string_match_def)
  from scan_regex_Cons[OF this] obtain pre post where
    s: "s = pre @ mt @ post" "mt \<noteq> []" "hd mt = CHR ''$''" by blast
  then have "1 \<le> dollars mt" by (cases mt) auto
  then show ?thesis using s by simp
qed

lemma single_placeholder_shape:
  assumes "string_match regex s = mt # ms" "dollars s \<le> 1"
  shows "\<exists>pre post. s = pre @ mt @ post \<and> mt \<noteq> [] \<and> hd mt = CHR ''$''
           \<and> CHR ''$'' \<notin> set pre \<and> CHR ''$'' \<notin> set post \<and> ms = []"
proof -
  from scan_regex_Cons[OF assms(1)[unfolded string_match_def]] obtain pre post where
    s: "s = pre @ mt @ post" "mt \<noteq> []" "hd mt = CHR ''$''" "ms = scan regex 0 post" by blast
  then have "1 \<le> dollars mt" by (cases mt) auto
  then have "dollars pre = 0" "dollars post = 0" using assms(2) s(1) by simp_all
  then have d: "CHR ''$'' \<notin> set pre" "CHR ''$'' \<notin> set post" by (simp_all add: dollars_0)
  then have "ms = []" using s(4) scan_regex_dollar_free by simp
  then show ?thesis using s d by blast
qed

lemma index_of_first:
  "CHR ''$'' \<notin> set pre \<Longrightarrow> mt \<noteq> [] \<Longrightarrow> hd mt = CHR ''$'' \<Longrightarrow>
     index_of mt (pre @ mt @ post) = Some (length pre)"
proof (induction pre)
  case Nil
  obtain a list where m: "mt = a # list" using Nil by (cases mt) auto
  show ?case by (simp add: m)
next
  case (Cons x pre)
  then have "take (length mt) (x # pre @ mt @ post) \<noteq> mt"
    by (cases mt) auto
  then show ?case using Cons by simp
qed

lemma get_substitution_plain:
  "CHR ''$'' \<notin> set r \<Longrightarrow> get_substitution m a b r = r"
  by (induction m a b r rule: get_substitution.induct) auto

lemma js_replace_first:
  assumes "CHR ''$'' \<notin> set pre" "mt \<noteq> []" "hd mt = CHR ''$''" "CHR ''$'' \<notin> set r"
  shows "js_replace (pre @ mt @ post) mt r = pre @ r @ post"
  using index_of_first[OF assms(1,2,3), of post] get_substitution_plain[OF assms(4)]
  by (simp add: js_replace_def)

lemma sls_test_on_sls_placeholder:
  "regex_test slsStageRegex 0 sls_stage_placeholder = (True, 12)"
  by (simp add: regex_test_def slsStageRegex_def lit_def sls_stage_placeholder_def class_matches_def)

lemma resolvable_cases:
  assumes "resolvable env mt"
  obtains (sls) "mt = sls_stage_placeholder"
  | (env) V v where "mt = env_placeholder V" "V \<noteq> []" "\<forall>c \<in> set V. is_name_char c"
      "env V = Some (Variable v)" "CHR ''$'' \<notin> set v"
  using assms unfolding resolvable_def
  by (auto simp: list_all_iff split: option.splits env_value.splits)

lemma visit_single_placeholder:
  assumes "string_match regex s = mt # ms" "dollars s \<le> 1" "resolvable env mt"
    and "CHR ''$'' \<notin> set stg"
    and "slsStageLastIndex st = 0" "envLastIndex st = 0"
  shows "\<exists>st' s'. visit_string env stg st s = Inr (st', JStr s') \<and> variableResolved st'
           \<and> unrecognizedVariableSources st' = unrecognizedVariableSources st
           \<and> CHR ''$'' \<notin> set s'"
proof -
  from single_placeholder_shape[OF assms(1,2)] obtain pre post where
    s: "s = pre @ mt @ post" "mt \<noteq> []" "hd mt = CHR ''$''"
       "CHR ''$'' \<notin> set pre" "CHR ''$'' \<notin> set post" "ms = []" by blast
  have v: "visit_string env stg st s = for_matches env stg s [mt] st (JStr s)"
    using assms(1) s(6) by (simp add: visit_string_for_matches)
  from assms(3) show ?thesis
  proof (cases rule: resolvable_cases)
    case sls
    have r: "js_replace s mt stg = pre @ stg @ post"
      using js_replace_first[OF s(4,2,3) assms(4)] s(1) by simp
    have "for_matches env stg s [mt] st (JStr s) =
            Inr (st\<lparr>slsStageLastIndex := 12, variableResolved := True\<rparr>, JStr (pre @ stg @ post))"
      using sls sls_test_on_sls_placeholder assms(5) r by (simp add: Let_def)
    then show ?thesis using v s(4,5) assms(4) by simp
  next
    case (env V v)
    have pp: "mt = s \<Longrightarrow> pre = [] \<and> post = []"
    proof -
      assume "mt = s"
      moreover have "length s = length pre + length mt + length post" using s(1) by simp
      ultimately show ?thesis by simp
    qed
    have r: "(if env_placeholder V = s then v else js_replace s (env_placeholder V) v) = pre @ v @ post"
      using pp js_replace_first[OF s(4,2,3) env(5)] s(1) env(1) by auto
    have "for_matches env stg s [mt] st (JStr s) =
            Inr (st\<lparr>slsStageLastIndex := 0, envLastIndex := length V + 7, variableResolved := True\<rparr>,
                 JStr (pre @ v @ post))"
      using env(1,4) sls_test_on_env_placeholder[OF env(3)] env_test_on_env_placeholder[OF env(2,3)]
        env_placeholder_name[OF env(3)] assms(6) r
      by (simp add: Let_def)
    then show ?thesis using v s(4,5) env(5) by simp
  qed
qed

lemma visit_all_dollar_free:
  "\<forall>s \<in> set ss. CHR ''$'' \<notin> set s \<Longrightarrow> visit_all env stg st ss = Inr (st, map JStr ss)"
  by (induction ss) (simp_all add: visit_string_def string_match_def scan_regex_dollar_free)

lemma matches_dollar_free:
  "\<forall>s \<in> set ss. CHR ''$'' \<notin> set s \<Longrightarrow> concat (map (string_match regex) ss) = []"
  by (induction ss) (simp_all add: string_match_def scan_regex_dollar_free)

lemma matches_have_dollar:
  "concat (map (string_match regex) ss) \<noteq> [] \<Longrightarrow> 1 \<le> dollars (concat ss)"
proof (induction ss)
  case Nil
  then show ?case by simp
next
  case (Cons s ss)
  show ?case
  proof (cases "string_match regex s = []")
    case True
    then show ?thesis using Cons by simp
  next
    case False
    then show ?thesis using string_match_has_dollar[OF False] by simp
  qed
qed

lemma visit_all_single_placeholder:
  assumes "dollars (concat ss) \<le> 1"
    and "\<forall>mt \<in> set (concat (map (string_match regex) ss)). resolvable env mt"
    and "CHR ''$'' \<notin> set stg"
    and "slsStageLastIndex st = 0" "envLastIndex st = 0"
  shows "\<exists>st' ss'. visit_all env stg st ss = Inr (st', map JStr ss')
           \<and> unrecognizedVariableSources st' = unrecognizedVariableSources st
           \<and> (if concat (map (string_match regex) ss) = [] then st' = st \<and> ss' = ss
               else variableResolved st' \<and> (\<forall>s \<in> set ss'. CHR ''$'' \<notin> set s))"
  using assms(1,2)
proof (induction ss)
  case Nil
  then show ?case by simp
next
  case (Cons s ss)
  show ?case
  proof (cases "string_match regex s")
    case Nil
    have v: "visit_string env stg st s = Inr (st, JStr s)" using Nil by (simp add: visit_string_def)
    have d: "dollars (concat ss) \<le> 1" using Cons.prems(1) by simp
    have r: "\<forall>mt \<in> set (concat (map (string_match regex) ss)). resolvable env mt"
      using Cons.prems(2) by simp
    from Cons.IH[OF d r] obtain st' ss' where ih:
      "visit_all env stg st ss = Inr (st', map JStr ss')"
      "unrecognizedVariableSources st' = unrecognizedVariableSources st"
      "if concat (map (string_match regex) ss) = [] then st' = st \<and> ss' = ss
       else variableResolved st' \<and> (\<forall>s \<in> set ss'. CHR ''$'' \<notin> set s)" by blast
    show ?thesis
    proof (cases "concat (map (string_match regex) ss) = []")
      case True
      then show ?thesis using v ih Nil by simp
    next
      case False
      from matches_have_dollar[OF False] have "dollars s = 0" using Cons.prems(1) by simp
      then have "CHR ''$'' \<notin> set s" by (simp add: dollars_0)
      then show ?thesis using v ih Nil False by simp
    qed
  next
    case (Cons mt ms)
    have m: "string_match regex s \<noteq> []" using Cons by simp
    from string_match_has_dollar[OF m] have ds: "dollars s \<le> 1" "dollars (concat ss) = 0"
      using Cons.prems(1) by simp_all
    then have free: "\<forall>x \<in> set ss. CHR ''$'' \<notin> set x"
      using dollars_0[of "concat ss"] by auto
    have "resolvable env mt" using Cons.prems(2) Cons by simp
    from visit_single_placeholder[OF Cons ds(1) this assms(3,4,5)] obtain st' s' where
      v: "visit_string env stg st s = Inr (st', JStr s')" "variableResolved st'"
         "unrecognizedVariableSources st' = unrecognizedVariableSources st" "CHR ''$'' \<notin> set s'"
      by blast
    show ?thesis
      using v visit_all_dollar_free[OF free, of env stg st'] free Cons by simp
  qed
qed

text \<open>With at most one \<open>$\<close> in the whole configuration there is at most one placeholder:
  one pass substitutes it and the next one finds nothing to do.\<close>

lemma at_most_one_dollar_resolved:
  assumes "dollar_count cfg \<le> 1"
    and "\<forall>mt \<in> set (placeholders cfg). resolvable env mt"
    and "CHR ''$'' \<notin> set stg"
  shows "\<exists>cfg'. resolveConfigurationVariables env cfg stg [] = Some (Inr cfg')
           \<and> placeholders cfg' = []"
proof -
  have fresh: "slsStageLastIndex (fresh_pass []) = 0" "envLastIndex (fresh_pass []) = 0"
    "\<not> variableResolved (fresh_pass [])" "unrecognizedVariableSources (fresh_pass []) = []"
    by (simp_all add: fresh_pass_def)
  from visit_all_single_placeholder[OF assms(1)[unfolded dollar_count_def]
      assms(2)[unfolded placeholders_def] assms(3) fresh(1,2)]
  obtain st1 ss1 where p1:
    "visit_all env stg (fresh_pass []) (strings_of cfg) = Inr (st1, map JStr ss1)"
    "unrecognizedVariableSources st1 = []"
    "if placeholders cfg = [] then st1 = fresh_pass [] \<and> ss1 = strings_of cfg
     else variableResolved st1 \<and> (\<forall>s \<in> set ss1. CHR ''$'' \<notin> set s)"
    using fresh(4) unfolding placeholders_def by auto
  from walk_result[OF p1(1)] obtain cfg1 where
    w1: "walk env stg (fresh_pass []) cfg = Inr (st1, cfg1)" "strings_of cfg1 = ss1" by auto
  show ?thesis
  proof (cases "placeholders cfg = []")
    case True
    then have "placeholders cfg1 = []" using p1(3) w1(2) by (simp add: placeholders_def)
    moreover have "resolveConfigurationVariables env cfg stg [] = Some (Inr cfg1)"
      using True p1(3) fresh(3,4) w1(1) by (subst resolveConfigurationVariables.simps) simp
    ultimately show ?thesis by blast
  next
    case False
    then have free: "\<forall>s \<in> set (strings_of cfg1). CHR ''$'' \<notin> set s" and vr: "variableResolved st1"
      using p1(3) w1(2) by simp_all
    from walk_result[OF visit_all_dollar_free[OF free, of env stg "fresh_pass []"]] obtain cfg2 where
      w2: "walk env stg (fresh_pass []) cfg1 = Inr (fresh_pass [], cfg2)"
          "strings_of cfg2 = strings_of cfg1" by auto
    have "placeholders cfg2 = []"
      using matches_dollar_free[OF free] w2(2) by (simp add: placeholders_def)
    moreover have "resolveConfigurationVariables env cfg1 stg [] = Some (Inr cfg2)"
      using w2(1) fresh(3,4) by (subst resolveConfigurationVariables.simps) simp
    then have "resolveConfigurationVariables env cfg stg [] = Some (Inr cfg2)"
      using w1(1) vr p1(2) by (subst resolveConfigurationVariables.simps) simp
    ultimately show ?thesis by blast
  qed
qed

subsection \<open>One placeholder of each kind\<close>

lemma index_of_skip_free:
  "CHR ''$'' \<notin> set pre \<Longrightarrow> mt \<noteq> [] \<Longrightarrow> hd mt = CHR ''$'' \<Longrightarrow>
     index_of mt (pre @ rest) = map_option (\<lambda>i. length pre + i) (index_of mt rest)"
proof (induction pre)
  case Nil
  then show ?case by (simp add: option.map_ident)
next
  case (Cons x pre)
  then have "take (length mt) (x # pre @ rest) \<noteq> mt"
    by (cases mt) auto
  then show ?case using Cons by (simp add: option.map_comp comp_def)
qed

lemma scan_regex_over_free:
  "CHR ''$'' \<notin> set pre \<Longrightarrow> scan regex 0 (pre @ rest) = scan regex 0 rest"
proof (induction pre)
  case Nil
  then show ?case by simp
next
  case (Cons x pre)
  then have "x \<noteq> CHR ''$''" by auto
  from match_here_regex_not_dollar[OF this] Cons show ?case by simp
qed

lemma regex_on_sls_placeholder:
  "match_here regex (sls_stage_placeholder @ rest) = Some 12"
  by (simp add: regex_def lit_def sls_stage_placeholder_def class_matches_def is_word_char_def
      is_digit_def in_range_def)

lemma scan_regex_sls_placeholder:
  "scan regex 0 (sls_stage_placeholder @ rest) = sls_stage_placeholder # scan regex 0 rest"
proof -
  have m: "match_here regex (CHR ''$'' # ''{sls:stage}'' @ rest) = Some 12"
    using regex_on_sls_placeholder[of rest] by (simp add: sls_stage_placeholder_def)
  have s: "scan regex 11 (''{sls:stage}'' @ rest) = scan regex 0 rest"
    by (subst scan_regex_skip) simp
  show ?thesis unfolding sls_stage_placeholder_def using m s by simp
qed

lemma sls_not_env: "sls_stage_placeholder \<noteq> env_placeholder V"
  by (simp add: sls_stage_placeholder_def env_placeholder_def)

lemma env_not_prefix_of_sls:
  "take (length (env_placeholder V)) (sls_stage_placeholder @ rest) \<noteq> env_placeholder V"
proof
  assume a: "take (length (env_placeholder V)) (sls_stage_placeholder @ rest) = env_placeholder V"
  have "(take (length (env_placeholder V)) (sls_stage_placeholder @ rest)) ! 2 = CHR ''s''"
    by (simp add: sls_stage_placeholder_def env_placeholder_def)
  moreover have "env_placeholder V ! 2 = CHR ''e''" by (simp add: env_placeholder_def)
  ultimately show False using a by simp
qed

lemma index_of_env_after_sls:
  assumes "CHR ''$'' \<notin> set p0" "CHR ''$'' \<notin> set p1"
  shows "index_of (env_placeholder V) (p0 @ sls_stage_placeholder @ p1 @ env_placeholder V @ p2)
           = Some (length p0 + 12 + length p1)"
proof -
  let ?E = "env_placeholder V"
  have e: "?E \<noteq> []" "hd ?E = CHR ''$''" by (simp_all add: env_placeholder_def)
  have a: "index_of ?E (p0 @ sls_stage_placeholder @ p1 @ ?E @ p2)
        = map_option (\<lambda>i. length p0 + i) (index_of ?E (sls_stage_placeholder @ p1 @ ?E @ p2))"
    using index_of_skip_free[OF assms(1) e] by simp
  have f: "CHR ''$'' \<notin> set (''{sls:stage}'' @ p1)" using assms(2) by simp
  have "index_of ?E (sls_stage_placeholder @ p1 @ ?E @ p2)
        = map_option Suc (index_of ?E ((''{sls:stage}'' @ p1) @ ?E @ p2))"
    using env_not_prefix_of_sls[of V "p1 @ ?E @ p2"]
    by (simp add: sls_stage_placeholder_def)
  also have "\<dots> = map_option Suc (Some (length (''{sls:stage}'' @ p1)))"
    using index_of_first[OF f e, of p2] by simp
  finally show ?thesis using a by simp
qed


lemma two_placeholder_shape:
  assumes "string_match regex s = [m1, m2]" "dollars s = 2"
  shows "\<exists>p0 p1 p2. s = p0 @ m1 @ p1 @ m2 @ p2
           \<and> CHR ''$'' \<notin> set p0 \<and> CHR ''$'' \<notin> set p1 \<and> CHR ''$'' \<notin> set p2"
proof -
  from scan_regex_Cons[OF assms(1)[unfolded string_match_def]] obtain p0 post where
    a: "s = p0 @ m1 @ post" "m1 \<noteq> []" "hd m1 = CHR ''$''" "[m2] = scan regex 0 post" by blast
  from scan_regex_Cons[OF a(4)[symmetric]] obtain p1 p2 where
    b: "post = p1 @ m2 @ p2" "m2 \<noteq> []" "hd m2 = CHR ''$''" by blast
  have "1 \<le> dollars m1" using a(2,3) by (cases m1) auto
  moreover have "1 \<le> dollars m2" using b(2,3) by (cases m2) auto
  ultimately have "dollars p0 = 0" "dollars p1 = 0" "dollars p2 = 0"
    using assms(2) a(1) b(1) by simp_all
  then show ?thesis using a(1) b(1) by (auto simp: dollars_0)
qed

lemma env_placeholder_facts:
  "env_placeholder V \<noteq> []" "hd (env_placeholder V) = CHR ''$''"
  "length (env_placeholder V) = length V + 7"
  by (simp_all add: env_placeholder_def)

lemma sls_placeholder_facts:
  "sls_stage_placeholder \<noteq> []" "hd sls_stage_placeholder = CHR ''$''"
  "length sls_stage_placeholder = 12" "dollars sls_stage_placeholder = 1"
  by (simp_all add: sls_stage_placeholder_def)

lemma leaf_sls:
  assumes "string_match regex s = [sls_stage_placeholder]"
    and "s = pre @ sls_stage_placeholder @ post" "CHR ''$'' \<notin> set pre"
    and "CHR ''$'' \<notin> set stg" "slsStageLastIndex st = 0"
  shows "visit_string env stg st s
           = Inr (st\<lparr>slsStageLastIndex := 12, variableResolved := True\<rparr>, JStr (pre @ stg @ post))"
proof -
  have r: "js_replace s sls_stage_placeholder stg = pre @ stg @ post"
    using js_replace_first[OF assms(3) sls_placeholder_facts(1,2) assms(4)] assms(2) by simp
  show ?thesis
    using assms(1,5) sls_test_on_sls_placeholder r
    by (simp add: visit_string_for_matches Let_def)
qed

lemma leaf_env:
  assumes "string_match regex s = [env_placeholder V]"
    and "s = pre @ env_placeholder V @ post" "CHR ''$'' \<notin> set pre"
    and "V \<noteq> []" "\<forall>c \<in> set V. is_name_char c" "env V = Some (Variable v)" "CHR ''$'' \<notin> set v"
    and "envLastIndex st = 0"
  shows "visit_string env stg st s
           = Inr (st\<lparr>slsStageLastIndex := 0, envLastIndex := length V + 7, variableResolved := True\<rparr>,
                  JStr (pre @ v @ post))"
proof -
  have pp: "env_placeholder V = s \<Longrightarrow> pre = [] \<and> post = []"
  proof -
    assume "env_placeholder V = s"
    moreover have "length s = length pre + length (env_placeholder V) + length post"
      using assms(2) by simp
    ultimately show ?thesis by simp
  qed
  have r: "(if env_placeholder V = s then v else js_replace s (env_placeholder V) v) = pre @ v @ post"
    using pp js_replace_first[OF assms(3) env_placeholder_facts(1,2) assms(7)] assms(2) by auto
  show ?thesis
    using assms(1,6,8) sls_test_on_env_placeholder[OF assms(5)] env_test_on_env_placeholder[OF assms(4,5)]
      env_placeholder_name[OF assms(5)] r
    by (simp add: visit_string_for_matches Let_def)
qed

lemma leaf_sls_env:
  assumes "string_match regex s = [sls_stage_placeholder, env_placeholder V]"
    and "s = p0 @ sls_stage_placeholder @ p1 @ env_placeholder V @ p2"
    and "CHR ''$'' \<notin> set p0" "CHR ''$'' \<notin> set p1"
    and "V \<noteq> []" "\<forall>c \<in> set V. is_name_char c" "env V = Some (Variable v)" "CHR ''$'' \<notin> set v"
    and "slsStageLastIndex st = 0" "envLastIndex st = 0"
  shows "visit_string env stg st s
           = Inr (st\<lparr>slsStageLastIndex := 0, envLastIndex := length V + 7, variableResolved := True\<rparr>,
                  JStr (p0 @ sls_stage_placeholder @ p1 @ v @ p2))"
proof -
  have ne: "env_placeholder V \<noteq> s"
  proof
    assume "env_placeholder V = s"
    then have "length (env_placeholder V) = length s" by simp
    then show False using assms(2) by (simp add: sls_placeholder_facts)
  qed
  have "js_replace s (env_placeholder V) v = p0 @ sls_stage_placeholder @ p1 @ v @ p2"
    using index_of_env_after_sls[OF assms(3,4), of V p2] get_substitution_plain[OF assms(8)] assms(2)
    by (simp add: js_replace_def sls_placeholder_facts env_placeholder_facts)
  then have r: "(if env_placeholder V = s then v else js_replace s (env_placeholder V) v)
                  = p0 @ sls_stage_placeholder @ p1 @ v @ p2"
    using ne by simp
  show ?thesis
    using assms(1,7,9,10) sls_test_on_sls_placeholder sls_test_on_env_placeholder[OF assms(6)]
      env_test_on_env_placeholder[OF assms(5,6)] env_placeholder_name[OF assms(6)] r
    by (simp add: visit_string_for_matches Let_def)
qed

lemma leaf_env_sls:
  assumes "string_match regex s = [env_placeholder V, sls_stage_placeholder]"
    and "s = p0 @ env_placeholder V @ p1 @ sls_stage_placeholder @ p2"
    and "CHR ''$'' \<notin> set p0" "CHR ''$'' \<notin> set p1" "CHR ''$'' \<notin> set stg"
    and "V \<noteq> []" "\<forall>c \<in> set V. is_name_char c" "env V = Some (Variable v)" "CHR ''$'' \<notin> set v"
    and "envLastIndex st = 0"
  shows "visit_string env stg st s
           = Inr (st\<lparr>slsStageLastIndex := 12, envLastIndex := length V + 7, variableResolved := True\<rparr>,
                  JStr (p0 @ v @ p1 @ stg @ p2))"
proof -
  have ne: "env_placeholder V \<noteq> s"
  proof
    assume "env_placeholder V = s"
    then have "length (env_placeholder V) = length s" by simp
    then show False using assms(2) by (simp add: sls_placeholder_facts)
  qed
  have "js_replace s (env_placeholder V) v = p0 @ v @ p1 @ sls_stage_placeholder @ p2"
    using js_replace_first[OF assms(3) env_placeholder_facts(1,2) assms(9)] assms(2) by simp
  then have r1: "(if env_placeholder V = s then v else js_replace s (env_placeholder V) v)
                  = p0 @ v @ p1 @ sls_stage_placeholder @ p2"
    using ne by simp
  have f: "CHR ''$'' \<notin> set (p0 @ v @ p1)" using assms(3,4,9) by simp
  have r2: "js_replace (p0 @ v @ p1 @ sls_stage_placeholder @ p2) sls_stage_placeholder stg
              = p0 @ v @ p1 @ stg @ p2"
    using js_replace_first[OF f sls_placeholder_facts(1,2) assms(5), of p2] by simp
  show ?thesis
    using assms(1,8,10) sls_test_on_sls_placeholder sls_test_on_env_placeholder[OF assms(7)]
      env_test_on_env_placeholder[OF assms(6,7)] env_placeholder_name[OF assms(7)] r1 r2
    by (simp add: visit_string_for_matches Let_def)
qed


lemma placeholder_kinds:
  assumes "length (filter (\<lambda>m. m = S) ms) \<le> 1" "length (filter (\<lambda>m. m \<noteq> S) ms) \<le> 1"
  shows "ms = [] \<or> ms = [S] \<or> (\<exists>E. E \<noteq> S \<and> (ms = [E] \<or> ms = [S, E] \<or> ms = [E, S]))"
proof -
  have "length ms \<le> 2"
    using assms sum_length_filter_compl[of "\<lambda>m. m = S" ms] by simp
  then consider "ms = []" | a where "ms = [a]" | a b where "ms = [a, b]"
    by (cases ms; cases "tl ms"; cases "tl (tl ms)") auto
  then show ?thesis
  proof cases
    case 1
    then show ?thesis by simp
  next
    case 2
    then show ?thesis by auto
  next
    case 3
    then show ?thesis using assms by (auto split: if_splits)
  qed
qed

lemma resolvable_sls: "resolvable env sls_stage_placeholder"
  by (simp add: resolvable_def)

lemma leaf_step:
  assumes wf: "dollars s = length (string_match regex s)"
    and res: "\<forall>m \<in> set (string_match regex s). resolvable env m"
    and c1: "length (filter (\<lambda>m. m = sls_stage_placeholder) (string_match regex s)) \<le> 1"
    and c2: "length (filter (\<lambda>m. m \<noteq> sls_stage_placeholder) (string_match regex s)) \<le> 1"
    and stg: "CHR ''$'' \<notin> set stg"
    and i4: "sls_stage_placeholder \<in> set (string_match regex s) \<longrightarrow> slsStageLastIndex st = 0"
    and i5: "(\<exists>m \<in> set (string_match regex s). m \<noteq> sls_stage_placeholder) \<longrightarrow> envLastIndex st = 0"
  shows "\<exists>st' s'. visit_string env stg st s = Inr (st', JStr s')
     \<and> unrecognizedVariableSources st' = unrecognizedVariableSources st
     \<and> (string_match regex s = [] \<longrightarrow> st' = st \<and> s' = s)
     \<and> (string_match regex s \<noteq> [] \<longrightarrow> variableResolved st')
     \<and> (sls_stage_placeholder \<notin> set (string_match regex s) \<longrightarrow>
           slsStageLastIndex st' = slsStageLastIndex st \<or> slsStageLastIndex st' = 0)
     \<and> ((\<forall>m \<in> set (string_match regex s). m = sls_stage_placeholder) \<longrightarrow>
           envLastIndex st' = envLastIndex st)
     \<and> dollars s' \<le> length (string_match regex s) - 1
     \<and> (\<forall>m \<in> set (string_match regex s'). resolvable env m)"
proof -
  let ?S = sls_stage_placeholder
  let ?ms = "string_match regex s"
  from placeholder_kinds[OF c1 c2] consider
    (none) "?ms = []" | (sls) "?ms = [?S]"
    | (env) E where "E \<noteq> ?S" "?ms = [E]"
    | (sls_env) E where "E \<noteq> ?S" "?ms = [?S, E]"
    | (env_sls) E where "E \<noteq> ?S" "?ms = [E, ?S]"
    by blast
  then show ?thesis
  proof cases
    case none
    then have "visit_string env stg st s = Inr (st, JStr s)" by (simp add: visit_string_def)
    then show ?thesis using none wf by simp
  next
    case sls
    then have d: "dollars s \<le> 1" using wf by simp
    from single_placeholder_shape[OF sls d] obtain pre post where
      s: "s = pre @ ?S @ post" "CHR ''$'' \<notin> set pre" "CHR ''$'' \<notin> set post" by blast
    have sl: "slsStageLastIndex st = 0" using i4 sls by simp
    have free: "CHR ''$'' \<notin> set (pre @ stg @ post)" using s stg by simp
    then have "string_match regex (pre @ stg @ post) = []" "dollars (pre @ stg @ post) = 0"
      using scan_regex_dollar_free[OF free] dollars_0[of "pre @ stg @ post"] by (simp_all add: string_match_def)
    then show ?thesis using leaf_sls[OF sls s(1,2) stg sl, of env] sls by simp
  next
    case (env E)
    then have d: "dollars s \<le> 1" using wf by simp
    from single_placeholder_shape[OF env(2) d] obtain pre post where
      s: "s = pre @ E @ post" "CHR ''$'' \<notin> set pre" "CHR ''$'' \<notin> set post" by blast
    have "resolvable env E" using res env(2) by simp
    then obtain V v where E: "E = env_placeholder V" "V \<noteq> []" "\<forall>c \<in> set V. is_name_char c"
      "env V = Some (Variable v)" "CHR ''$'' \<notin> set v"
      using env(1) by (cases rule: resolvable_cases) auto
    have el: "envLastIndex st = 0" using i5 env by auto
    have free: "CHR ''$'' \<notin> set (pre @ v @ post)" using s E(5) by simp
    then have "string_match regex (pre @ v @ post) = []" "dollars (pre @ v @ post) = 0"
      using scan_regex_dollar_free[OF free] dollars_0[of "pre @ v @ post"] by (simp_all add: string_match_def)
    then show ?thesis
      using leaf_env[where env = env, OF env(2)[unfolded E(1)] s(1)[unfolded E(1)] s(2) E(2,3,4,5) el, of stg] env E(1)
      by simp
  next
    case (sls_env E)
    then have d: "dollars s = 2" using wf by simp
    from two_placeholder_shape[OF sls_env(2) d] obtain p0 p1 p2 where
      s: "s = p0 @ ?S @ p1 @ E @ p2" "CHR ''$'' \<notin> set p0" "CHR ''$'' \<notin> set p1" "CHR ''$'' \<notin> set p2"
      by blast
    have "resolvable env E" using res sls_env(2) by simp
    then obtain V v where E: "E = env_placeholder V" "V \<noteq> []" "\<forall>c \<in> set V. is_name_char c"
      "env V = Some (Variable v)" "CHR ''$'' \<notin> set v"
      using sls_env(1) by (cases rule: resolvable_cases) auto
    have sl: "slsStageLastIndex st = 0" using i4 sls_env by simp
    have el: "envLastIndex st = 0" using i5 sls_env by auto
    have free: "CHR ''$'' \<notin> set (p1 @ v @ p2)" using s E(5) by simp
    have m: "string_match regex (p0 @ ?S @ p1 @ v @ p2) = [?S]"
      using scan_regex_over_free[OF s(2), of "?S @ p1 @ v @ p2"]
        scan_regex_sls_placeholder[of "p1 @ v @ p2"] scan_regex_dollar_free[OF free]
      by (simp add: string_match_def)
    have dd: "dollars (p0 @ ?S @ p1 @ v @ p2) = 1"
      using s(2,3,4) E(5) dollars_0 by (simp add: sls_placeholder_facts)
    show ?thesis
      using leaf_sls_env[where env = env, OF sls_env(2)[unfolded E(1)] s(1)[unfolded E(1)] s(2,3) E(2,3,4,5) sl el, of stg]
        sls_env E(1) m dd resolvable_sls
      by simp
  next
    case (env_sls E)
    then have d: "dollars s = 2" using wf by simp
    from two_placeholder_shape[OF env_sls(2) d] obtain p0 p1 p2 where
      s: "s = p0 @ E @ p1 @ ?S @ p2" "CHR ''$'' \<notin> set p0" "CHR ''$'' \<notin> set p1" "CHR ''$'' \<notin> set p2"
      by blast
    have "resolvable env E" using res env_sls(2) by simp
    then obtain V v where E: "E = env_placeholder V" "V \<noteq> []" "\<forall>c \<in> set V. is_name_char c"
      "env V = Some (Variable v)" "CHR ''$'' \<notin> set v"
      using env_sls(1) by (cases rule: resolvable_cases) auto
    have el: "envLastIndex st = 0" using i5 env_sls by auto
    have free: "CHR ''$'' \<notin> set (p0 @ v @ p1 @ stg @ p2)" using s E(5) stg by simp
    then have "string_match regex (p0 @ v @ p1 @ stg @ p2) = []" "dollars (p0 @ v @ p1 @ stg @ p2) = 0"
      using scan_regex_dollar_free[OF free] dollars_0[of "p0 @ v @ p1 @ stg @ p2"]
      by (simp_all add: string_match_def)
    then show ?thesis
      using leaf_env_sls[where env = env, OF env_sls(2)[unfolded E(1)] s(1)[unfolded E(1)] s(2,3) stg E(2,3,4,5) el]
        env_sls E(1)
      by simp
  qed
qed


lemma visit_all_step:
  assumes wf: "\<forall>s \<in> set ss. dollars s = length (string_match regex s)"
    and res: "\<forall>m \<in> set (concat (map (string_match regex) ss)). resolvable env m"
    and c1: "length (filter (\<lambda>m. m = sls_stage_placeholder) (concat (map (string_match regex) ss))) \<le> 1"
    and c2: "length (filter (\<lambda>m. m \<noteq> sls_stage_placeholder) (concat (map (string_match regex) ss))) \<le> 1"
    and stg: "CHR ''$'' \<notin> set stg"
    and i4: "sls_stage_placeholder \<in> set (concat (map (string_match regex) ss))
               \<longrightarrow> slsStageLastIndex st = 0"
    and i5: "(\<exists>m \<in> set (concat (map (string_match regex) ss)). m \<noteq> sls_stage_placeholder)
               \<longrightarrow> envLastIndex st = 0"
  shows "\<exists>st' ss'. visit_all env stg st ss = Inr (st', map JStr ss')
     \<and> unrecognizedVariableSources st' = unrecognizedVariableSources st
     \<and> (concat (map (string_match regex) ss) = [] \<longrightarrow> st' = st \<and> ss' = ss)
     \<and> (concat (map (string_match regex) ss) \<noteq> [] \<longrightarrow> variableResolved st')
     \<and> dollars (concat ss') \<le> length (concat (map (string_match regex) ss)) - 1
     \<and> (\<forall>m \<in> set (concat (map (string_match regex) ss')). resolvable env m)"
  using wf res c1 c2 i4 i5
proof (induction ss arbitrary: st)
  case Nil
  then show ?case by simp
next
  case (Cons s ss)
  let ?S = sls_stage_placeholder
  let ?ms = "string_match regex s"
  let ?M = "concat (map (string_match regex) ss)"
  have a1: "dollars s = length ?ms" using Cons.prems(1) by simp
  have a2: "\<forall>m \<in> set ?ms. resolvable env m" using Cons.prems(2) by simp
  have a3: "length (filter (\<lambda>m. m = ?S) ?ms) \<le> 1" using Cons.prems(3) by simp
  have a4: "length (filter (\<lambda>m. m \<noteq> ?S) ?ms) \<le> 1" using Cons.prems(4) by simp
  have a5: "?S \<in> set ?ms \<longrightarrow> slsStageLastIndex st = 0" using Cons.prems(5) by simp
  have a6: "(\<exists>m \<in> set ?ms. m \<noteq> ?S) \<longrightarrow> envLastIndex st = 0" using Cons.prems(6) by auto
  from leaf_step[OF a1 a2 a3 a4 stg a5 a6] obtain st1 s' where l:
    "visit_string env stg st s = Inr (st1, JStr s')"
    "unrecognizedVariableSources st1 = unrecognizedVariableSources st"
    "?ms = [] \<longrightarrow> st1 = st \<and> s' = s"
    "?ms \<noteq> [] \<longrightarrow> variableResolved st1"
    "?S \<notin> set ?ms \<longrightarrow> slsStageLastIndex st1 = slsStageLastIndex st \<or> slsStageLastIndex st1 = 0"
    "(\<forall>m \<in> set ?ms. m = ?S) \<longrightarrow> envLastIndex st1 = envLastIndex st"
    "dollars s' \<le> length ?ms - 1"
    "\<forall>m \<in> set (string_match regex s'). resolvable env m"
    by blast
  have b1: "\<forall>s \<in> set ss. dollars s = length (string_match regex s)" using Cons.prems(1) by simp
  have b2: "\<forall>m \<in> set ?M. resolvable env m" using Cons.prems(2) by simp
  have b3: "length (filter (\<lambda>m. m = ?S) ?M) \<le> 1" using Cons.prems(3) by simp
  have b4: "length (filter (\<lambda>m. m \<noteq> ?S) ?M) \<le> 1" using Cons.prems(4) by simp
  have b5: "?S \<in> set ?M \<longrightarrow> slsStageLastIndex st1 = 0"
  proof
    assume m: "?S \<in> set ?M"
    then have "filter (\<lambda>m. m = ?S) ?M \<noteq> []" by (auto simp: filter_empty_conv)
    then have "1 \<le> length (filter (\<lambda>m. m = ?S) ?M)" by (cases "filter (\<lambda>m. m = ?S) ?M") auto
    moreover have "length (filter (\<lambda>m. m = ?S) ?ms) + length (filter (\<lambda>m. m = ?S) ?M) \<le> 1"
      using Cons.prems(3) by simp
    ultimately have "length (filter (\<lambda>m. m = ?S) ?ms) = 0" by linarith
    then have "?S \<notin> set ?ms" by (auto simp: filter_empty_conv)
    moreover have "slsStageLastIndex st = 0" using Cons.prems(5) m by simp
    ultimately show "slsStageLastIndex st1 = 0" using l(5) by auto
  qed
  have b6: "(\<exists>m \<in> set ?M. m \<noteq> ?S) \<longrightarrow> envLastIndex st1 = 0"
  proof
    assume m: "\<exists>m \<in> set ?M. m \<noteq> ?S"
    then have "filter (\<lambda>m. m \<noteq> ?S) ?M \<noteq> []" by (auto simp: filter_empty_conv)
    then have "1 \<le> length (filter (\<lambda>m. m \<noteq> ?S) ?M)" by (cases "filter (\<lambda>m. m \<noteq> ?S) ?M") auto
    moreover have "length (filter (\<lambda>m. m \<noteq> ?S) ?ms) + length (filter (\<lambda>m. m \<noteq> ?S) ?M) \<le> 1"
      using Cons.prems(4) by simp
    ultimately have "length (filter (\<lambda>m. m \<noteq> ?S) ?ms) = 0" by linarith
    then have "\<forall>m \<in> set ?ms. m = ?S" by (auto simp: filter_empty_conv)
    moreover have "envLastIndex st = 0" using Cons.prems(6) m by auto
    ultimately show "envLastIndex st1 = 0" using l(6) by auto
  qed
  from Cons.IH[OF b1 b2 b3 b4 b5 b6] obtain st' ss' where ih:
    "visit_all env stg st1 ss = Inr (st', map JStr ss')"
    "unrecognizedVariableSources st' = unrecognizedVariableSources st1"
    "?M = [] \<longrightarrow> st' = st1 \<and> ss' = ss"
    "?M \<noteq> [] \<longrightarrow> variableResolved st'"
    "dollars (concat ss') \<le> length ?M - 1"
    "\<forall>m \<in> set (concat (map (string_match regex) ss')). resolvable env m"
    by blast
  have v: "visit_all env stg st (s # ss) = Inr (st', map JStr (s' # ss'))" using l(1) ih(1) by simp
  have u: "unrecognizedVariableSources st' = unrecognizedVariableSources st" using l(2) ih(2) by simp
  have e: "concat (map (string_match regex) (s # ss)) = [] \<longrightarrow> st' = st \<and> s' # ss' = s # ss"
    using l(3) ih(3) by simp
  have r: "concat (map (string_match regex) (s # ss)) \<noteq> [] \<longrightarrow> variableResolved st'"
    using l(3,4) ih(3,4) by auto
  have d: "dollars (concat (s' # ss')) \<le> length (concat (map (string_match regex) (s # ss))) - 1"
    using l(7) ih(5) by simp
  have m: "\<forall>m \<in> set (concat (map (string_match regex) (s' # ss'))). resolvable env m"
    using l(8) ih(6) by auto
  show ?case using v u e r d m by blast
qed

text \<open>C1 (amended). Take a configuration in which every \<open>$\<close> of a string begins a placeholder,
  every placeholder is meant to be substituted (\<open>${sls:stage}\<close>, or \<open>${env:V}\<close> with \<open>V\<close> made of
  word characters and dots and defined with a value free of \<open>$\<close>), \<open>${sls:stage}\<close> occurs at
  most once and there is at most one \<open>${env:V}\<close>, in the same string or in different ones, and
  the stage is free of \<open>$\<close>. Then the resolution returns a configuration, and no placeholder
  remains in it.\<close>

theorem placeholders_resolved:
  assumes "\<forall>s \<in> set (strings_of cfg). dollars s = length (string_match regex s)"
    and "\<forall>mt \<in> set (placeholders cfg). resolvable env mt"
    and "length (filter (\<lambda>m. m = sls_stage_placeholder) (placeholders cfg)) \<le> 1"
    and "length (filter (\<lambda>m. m \<noteq> sls_stage_placeholder) (placeholders cfg)) \<le> 1"
    and "CHR ''$'' \<notin> set stg"
  shows "\<exists>cfg'. resolveConfigurationVariables env cfg stg [] = Some (Inr cfg')
           \<and> placeholders cfg' = []"
proof -
  have fresh: "slsStageLastIndex (fresh_pass []) = 0" "envLastIndex (fresh_pass []) = 0"
    "\<not> variableResolved (fresh_pass [])" "unrecognizedVariableSources (fresh_pass []) = []"
    by (simp_all add: fresh_pass_def)
  have two: "length (placeholders cfg) \<le> 2"
    using assms(3,4) sum_length_filter_compl[of "\<lambda>m. m = sls_stage_placeholder" "placeholders cfg"]
    by simp
  from visit_all_step[OF assms(1) assms(2)[unfolded placeholders_def]
      assms(3)[unfolded placeholders_def] assms(4)[unfolded placeholders_def] assms(5),
      of "fresh_pass []"] fresh
  obtain st1 ss1 where p1:
    "visit_all env stg (fresh_pass []) (strings_of cfg) = Inr (st1, map JStr ss1)"
    "unrecognizedVariableSources st1 = []"
    "placeholders cfg = [] \<longrightarrow> st1 = fresh_pass [] \<and> ss1 = strings_of cfg"
    "placeholders cfg \<noteq> [] \<longrightarrow> variableResolved st1"
    "dollars (concat ss1) \<le> length (placeholders cfg) - 1"
    "\<forall>m \<in> set (concat (map (string_match regex) ss1)). resolvable env m"
    unfolding placeholders_def by auto
  from walk_result[OF p1(1)] obtain cfg1 where
    w1: "walk env stg (fresh_pass []) cfg = Inr (st1, cfg1)" "strings_of cfg1 = ss1" by auto
  show ?thesis
  proof (cases "placeholders cfg = []")
    case True
    then have "placeholders cfg1 = []" using p1(3) w1(2) by (simp add: placeholders_def)
    moreover have "resolveConfigurationVariables env cfg stg [] = Some (Inr cfg1)"
      using True p1(3) fresh(3,4) w1(1) by (subst resolveConfigurationVariables.simps) simp
    ultimately show ?thesis by blast
  next
    case False
    have d: "dollar_count cfg1 \<le> 1" using p1(5) two w1(2) by (simp add: dollar_count_def)
    have r: "\<forall>mt \<in> set (placeholders cfg1). resolvable env mt"
      using p1(6) w1(2) by (simp add: placeholders_def)
    from at_most_one_dollar_resolved[OF d r assms(5)] obtain cfg' where
      c: "resolveConfigurationVariables env cfg1 stg [] = Some (Inr cfg')" "placeholders cfg' = []"
      by blast
    have "resolveConfigurationVariables env cfg stg [] = Some (Inr cfg')"
      using w1(1) p1(2,4) False c(1) by (subst resolveConfigurationVariables.simps) simp
    then show ?thesis using c(2) by blast
  qed
qed

text \<open>C1 (witness): \<open>${sls:stage}\<close> and \<open>${env:FOO}\<close> in one string; three passes are needed.\<close>

theorem placeholders_resolved_witness:
  "\<exists>cfg'. resolveConfigurationVariables foo_env
      (JObj [(''name'', JStr ''app''), (''url'', JStr ''https://${sls:stage}.${env:FOO}.example.com'')])
      ''dev'' [] = Some (Inr cfg')
      \<and> placeholders cfg' = []"
proof -
  let ?cfg = "JObj [(''name'', JStr ''app''), (''url'', JStr ''https://${sls:stage}.${env:FOO}.example.com'')]"
  have a: "\<forall>s \<in> set (strings_of ?cfg). dollars s = length (string_match regex s)"
    by code_simp
  have p: "placeholders ?cfg = [sls_stage_placeholder, ''${env:FOO}'']"
    by code_simp
  have r: "resolvable foo_env ''${env:FOO}''"
    by (simp add: resolvable_def env_name_of_def env_placeholder_def foo_env_def is_name_char_def
        is_word_char_def is_digit_def in_range_def)
  have b: "\<forall>mt \<in> set (placeholders ?cfg). resolvable foo_env mt"
    using r resolvable_sls by (simp add: p)
  have c: "length (filter (\<lambda>m. m = sls_stage_placeholder) (placeholders ?cfg)) \<le> 1"
    by (simp add: p sls_stage_placeholder_def)
  have d: "length (filter (\<lambda>m. m \<noteq> sls_stage_placeholder) (placeholders ?cfg)) \<le> 1"
    by (simp add: p sls_stage_placeholder_def)
  have e: "CHR ''$'' \<notin> set ''dev''" by simp
  from placeholders_resolved[where env = foo_env, OF a b c d e] show ?thesis .
qed

subsection \<open>The shape of a placeholder\<close>

lemma star_split:
  "match_here ((c, ZeroOrMore) # r) s = Some n \<Longrightarrow>
     \<exists>a b k. s = a @ b \<and> (\<forall>x \<in> set a. class_matches c x) \<and> match_here r b = Some k
       \<and> n = length a + k"
proof (induction s arbitrary: n)
  case Nil
  then show ?case by auto
next
  case (Cons x xs)
  show ?case
  proof (cases "class_matches c x")
    case False
    then have "match_here r (x # xs) = Some n" using Cons.prems by simp
    then have "x # xs = [] @ (x # xs) \<and> (\<forall>x \<in> set []. class_matches c x)
        \<and> match_here r (x # xs) = Some n \<and> n = length ([] :: string) + n" by simp
    then show ?thesis by blast
  next
    case True
    show ?thesis
    proof (cases "match_here ((c, ZeroOrMore) # r) xs")
      case None
      then have "match_here r (x # xs) = Some n" using Cons.prems True by simp
      then have "x # xs = [] @ (x # xs) \<and> (\<forall>x \<in> set []. class_matches c x)
          \<and> match_here r (x # xs) = Some n \<and> n = length ([] :: string) + n" by simp
      then show ?thesis by blast
    next
      case (Some n')
      then have n: "n = Suc n'" using Cons.prems True by simp
      from Cons.IH[OF Some] obtain a b k where
        ih: "xs = a @ b" "\<forall>x \<in> set a. class_matches c x" "match_here r b = Some k" "n' = length a + k"
        by blast
      have "x # xs = (x # a) @ b \<and> (\<forall>y \<in> set (x # a). class_matches c y)
          \<and> match_here r b = Some k \<and> n = length (x # a) + k"
        using ih n True by simp
      then show ?thesis by blast
    qed
  qed
qed

lemma star_to:
  "\<forall>x \<in> set a. class_matches c x \<Longrightarrow> \<not> class_matches c y \<Longrightarrow> match_here r (y # b) = Some k \<Longrightarrow>
   match_here ((c, ZeroOrMore) # r) (a @ y # b) = Some (length a + k)"
  by (induction a) auto

lemma class_word [simp]: "class_matches [WordChar] c = is_word_char c"
  by (simp add: class_matches_def)

lemma class_lit [simp]: "class_matches [Lit a] c = (c = a)"
  by (simp add: class_matches_def)

lemma regex_unfold:
  "match_here regex t =
     (case t of
        x1 # x2 # t2 \<Rightarrow>
          if x1 = CHR ''$'' \<and> x2 = CHR ''{''
          then map_option (\<lambda>n. Suc (Suc n))
                 (match_here [([WordChar], ZeroOrMore), ([Lit (CHR '':'')], Once),
                    ([WordChar, Digit, Lit (CHR ''.''), Lit (CHR ''-'')], OneOrMore),
                    ([Lit (CHR ''}'')], Once)] t2)
          else None
      | _ \<Rightarrow> None)"
  by (cases t; cases "tl t") (auto simp: regex_def lit_def option.map_comp comp_def)

lemma regex_match_shape:
  assumes "match_here regex t = Some n"
  shows "\<exists>src path rest. t = ''${'' @ src @ '':'' @ path @ ''}'' @ rest
           \<and> (\<forall>c \<in> set src. is_word_char c) \<and> path \<noteq> [] \<and> (\<forall>c \<in> set path. is_path_char c)
           \<and> n = length src + length path + 4"
proof -
  let ?PC = "[WordChar, Digit, Lit (CHR ''.''), Lit (CHR ''-'')]"
  let ?close = "[([Lit (CHR ''}'')], Once)]"
  from assms obtain t2 n2 where t: "t = CHR ''$'' # CHR ''{'' # t2"
    and m2: "match_here [([WordChar], ZeroOrMore), ([Lit (CHR '':'')], Once), (?PC, OneOrMore),
                ([Lit (CHR ''}'')], Once)] t2 = Some n2"
    and n: "n = Suc (Suc n2)"
    unfolding regex_unfold by (auto split: list.splits if_splits)
  from star_split[OF m2] obtain a b k where
    s1: "t2 = a @ b" "\<forall>x \<in> set a. is_word_char x"
      "match_here [([Lit (CHR '':'')], Once), (?PC, OneOrMore), ([Lit (CHR ''}'')], Once)] b = Some k"
      "n2 = length a + k"
    by auto
  from s1(3) obtain b1 k1 where b: "b = CHR '':'' # b1"
    and m3: "match_here [(?PC, OneOrMore), ([Lit (CHR ''}'')], Once)] b1 = Some k1" and k: "k = Suc k1"
    by (cases b) (auto split: if_splits)
  from m3 obtain y b2 k2 where b1: "b1 = y # b2" and y: "class_matches ?PC y"
    and m4: "match_here [(?PC, ZeroOrMore), ([Lit (CHR ''}'')], Once)] b2 = Some k2" and k1: "k1 = Suc k2"
    by (cases b1) (auto split: if_splits)
  from star_split[OF m4] obtain a2 b3 k3 where
    s2: "b2 = a2 @ b3" "\<forall>x \<in> set a2. class_matches ?PC x" "match_here ?close b3 = Some k3"
      "k2 = length a2 + k3"
    by auto
  from s2(3) obtain rest where b3: "b3 = CHR ''}'' # rest" and k3: "k3 = 1"
    by (cases b3) (auto split: if_splits)
  have "t = ''${'' @ a @ '':'' @ (y # a2) @ ''}'' @ rest"
    using t s1(1) b b1 s2(1) b3 by simp
  moreover have "\<forall>c \<in> set (y # a2). is_path_char c"
    using y s2(2) by (simp add: is_path_char_def)
  moreover have "n = length a + length (y # a2) + 4"
    using n s1(4) k k1 s2(4) k3 by simp
  ultimately show ?thesis using s1(2) by blast
qed

lemma path_char_facts:
  assumes "is_path_char c"
  shows "c \<noteq> CHR ''$''" "c \<noteq> CHR ''}''"
  using assms
  by (auto simp: is_path_char_def class_matches_def is_word_char_def is_digit_def in_range_def)

lemma regex_match_self_delimiting:
  assumes "\<forall>c \<in> set src. is_word_char c" "path \<noteq> []" "\<forall>c \<in> set path. is_path_char c"
  shows "match_here regex (''${'' @ src @ '':'' @ path @ ''}'' @ rest)
           = Some (length src + length path + 4)"
proof -
  let ?PC = "[WordChar, Digit, Lit (CHR ''.''), Lit (CHR ''-'')]"
  let ?close = "[([Lit (CHR ''}'')], Once)]"
  obtain y a2 where p: "path = y # a2" using assms(2) by (cases path) auto
  have pc: "class_matches ?PC y" "\<forall>x \<in> set a2. class_matches ?PC x"
    using assms(3) p by (simp_all add: is_path_char_def)
  have nc: "\<not> class_matches ?PC (CHR ''}'')"
    by (simp add: class_matches_def is_word_char_def is_digit_def in_range_def)
  have "match_here ?close (CHR ''}'' # rest) = Some 1" by simp
  from star_to[OF pc(2) nc this]
  have a: "match_here ((?PC, ZeroOrMore) # ?close) (a2 @ CHR ''}'' # rest) = Some (length a2 + 1)" .
  have b: "match_here [([Lit (CHR '':'')], Once), (?PC, OneOrMore), ([Lit (CHR ''}'')], Once)]
             (CHR '':'' # path @ CHR ''}'' # rest) = Some (length path + 2)"
    using a pc(1) p by simp
  have nw: "\<not> class_matches [WordChar] (CHR '':'')"
    by (simp add: is_word_char_def is_digit_def in_range_def)
  have w: "\<forall>x \<in> set src. class_matches [WordChar] x" using assms(1) by simp
  from star_to[OF w nw b]
  have "match_here [([WordChar], ZeroOrMore), ([Lit (CHR '':'')], Once), (?PC, OneOrMore),
                ([Lit (CHR ''}'')], Once)] (src @ CHR '':'' # path @ CHR ''}'' # rest)
          = Some (length src + (length path + 2))" .
  then show ?thesis unfolding regex_unfold by simp
qed

lemma placeholder_shape:
  assumes "is_placeholder h"
  shows "\<exists>src path. h = ''${'' @ src @ '':'' @ path @ ''}''
           \<and> (\<forall>c \<in> set src. is_word_char c) \<and> path \<noteq> [] \<and> (\<forall>c \<in> set path. is_path_char c)"
proof -
  from regex_match_shape[OF assms[unfolded is_placeholder_def]] obtain src path rest where
    s: "h = ''${'' @ src @ '':'' @ path @ ''}'' @ rest"
      "\<forall>c \<in> set src. is_word_char c" "path \<noteq> []" "\<forall>c \<in> set path. is_path_char c"
      "length h = length src + length path + 4" by blast
  have "length h = length src + length path + 4 + length rest" by (subst s(1)) simp
  then have "rest = []" using s(5) by simp
  then show ?thesis using s by auto
qed

lemma placeholder_of_match:
  assumes "match_here regex t = Some n"
  shows "is_placeholder (take n t)"
proof -
  from regex_match_shape[OF assms] obtain src path rest where
    s: "t = ''${'' @ src @ '':'' @ path @ ''}'' @ rest"
      "\<forall>c \<in> set src. is_word_char c" "path \<noteq> []" "\<forall>c \<in> set path. is_path_char c"
      "n = length src + length path + 4" by blast
  define h where "h = ''${'' @ src @ '':'' @ path @ ''}''"
  have "t = h @ rest" "n = length h" using s(1,5) by (simp_all add: h_def)
  then have "take n t = h" by simp
  then have "take n t = ''${'' @ src @ '':'' @ path @ ''}''" by (simp add: h_def)
  moreover have "match_here regex (''${'' @ src @ '':'' @ path @ ''}'')
                   = Some (length src + length path + 4)"
    using regex_match_self_delimiting[OF s(2,3,4), of "[]"] by simp
  ultimately show ?thesis by (simp add: is_placeholder_def)
qed

lemma placeholder_facts:
  assumes "is_placeholder h"
  shows "h \<noteq> []" "hd h = CHR ''$''" "CHR ''$'' \<notin> set (tl h)" "dollars h = 1"
    "match_here regex (h @ rest) = Some (length h)"
    "\<exists>body. h = body @ ''}'' \<and> CHR ''}'' \<notin> set body"
proof -
  from placeholder_shape[OF assms] obtain src path where
    s: "h = ''${'' @ src @ '':'' @ path @ ''}''"
      "\<forall>c \<in> set src. is_word_char c" "path \<noteq> []" "\<forall>c \<in> set path. is_path_char c" by blast
  have f: "CHR ''$'' \<notin> set src" "CHR ''}'' \<notin> set src" "CHR ''$'' \<notin> set path" "CHR ''}'' \<notin> set path"
    using s(2,4) word_char_not_special path_char_facts by blast+
  show "h \<noteq> []" "hd h = CHR ''$''" by (simp_all add: s(1))
  show "CHR ''$'' \<notin> set (tl h)" using f by (simp add: s(1))
  show "dollars h = 1" using f dollars_0 by (simp add: s(1))
  show "match_here regex (h @ rest) = Some (length h)"
    using regex_match_self_delimiting[OF s(2,3,4), of rest] by (simp add: s(1))
  have "h = (''${'' @ src @ '':'' @ path) @ ''}'' \<and> CHR ''}'' \<notin> set (''${'' @ src @ '':'' @ path)"
    using f by (simp add: s(1))
  then show "\<exists>body. h = body @ ''}'' \<and> CHR ''}'' \<notin> set body" by blast
qed

lemma first_occurrence_unique:
  "a @ c # x = b @ c # y \<Longrightarrow> c \<notin> set a \<Longrightarrow> c \<notin> set b \<Longrightarrow> a = b"
proof (induction a arbitrary: b)
  case Nil
  then show ?case by (cases b) auto
next
  case (Cons u a)
  then show ?case by (cases b) auto
qed

lemma placeholder_prefix:
  assumes "is_placeholder h" "is_placeholder m" "take (length m) (h @ rest) = m"
  shows "m = h"
proof -
  from placeholder_facts(6)[OF assms(1)] obtain bh where h: "h = bh @ ''}''" "CHR ''}'' \<notin> set bh" by blast
  from placeholder_facts(6)[OF assms(2)] obtain bm where m: "m = bm @ ''}''" "CHR ''}'' \<notin> set bm" by blast
  have "h @ rest = m @ drop (length m) (h @ rest)"
    using assms(3) append_take_drop_id[of "length m" "h @ rest"] by simp
  then have "bh @ CHR ''}'' # rest = bm @ CHR ''}'' # drop (length m) (h @ rest)"
    using h(1) m(1) by simp
  from first_occurrence_unique[OF this h(2) m(2)] show ?thesis using h(1) m(1) by simp
qed


subsection \<open>Strings cut into pieces\<close>

lemma holes_placeholder:
  "well_formed ts \<Longrightarrow> h \<in> set (holes ts) \<Longrightarrow> is_placeholder h"
  by (induction ts rule: holes.induct) auto

lemma scan_render:
  "well_formed ts \<Longrightarrow> scan regex 0 (render ts) = holes ts"
proof (induction ts rule: render.induct)
  case 1
  then show ?case by simp
next
  case (2 p ts)
  then show ?case by (simp add: scan_regex_over_free)
next
  case (3 h ts)
  then have ph: "is_placeholder h" and ih: "scan regex 0 (render ts) = holes ts" by simp_all
  obtain x tail where h: "h = x # tail" using placeholder_facts(1)[OF ph] by (cases h) auto
  have m: "match_here regex (x # tail @ render ts) = Some (Suc (length tail))"
    using placeholder_facts(5)[OF ph, of "render ts"] h by simp
  have "scan regex (length tail) (tail @ render ts) = scan regex 0 (render ts)"
    by (subst scan_regex_skip) simp
  then show ?case using m ih h by simp
qed

lemma string_match_render:
  "well_formed ts \<Longrightarrow> string_match regex (render ts) = holes ts"
  by (simp add: string_match_def scan_render)

lemma dollars_render:
  "well_formed ts \<Longrightarrow> dollars (render ts) = length (holes ts)"
  by (induction ts rule: render.induct) (auto simp: placeholder_facts(4) dollars_0[symmetric])

lemma scan_regex_Cons_placeholder:
  "scan regex 0 s = mt # ms \<Longrightarrow> is_placeholder mt"
proof (induction s)
  case Nil
  then show ?case by simp
next
  case (Cons x xs)
  show ?case
  proof (cases "match_here regex (x # xs)")
    case None
    then show ?thesis using Cons by simp
  next
    case (Some n)
    then have "mt = take n (x # xs)" using Cons.prems by simp
    then show ?thesis using placeholder_of_match[OF Some] by simp
  qed
qed

lemma matches_le_dollars:
  "length (scan regex 0 s) \<le> dollars s"
proof (induction "length s" arbitrary: s rule: less_induct)
  case less
  show ?case
  proof (cases "scan regex 0 s")
    case Nil
    then show ?thesis by simp
  next
    case (Cons mt ms)
    from scan_regex_Cons[OF Cons] obtain pre post where
      s: "s = pre @ mt @ post" "mt \<noteq> []" "hd mt = CHR ''$''" "ms = scan regex 0 post" by blast
    have "length post < length s" using s(1,2) by simp
    from less[OF this] have "length ms \<le> dollars post" using s(4) by simp
    moreover have "1 \<le> dollars mt" using s(2,3) by (cases mt) auto
    ultimately show ?thesis using Cons s(1) by simp
  qed
qed

lemma tokenize:
  "dollars s = length (string_match regex s) \<Longrightarrow> \<exists>ts. well_formed ts \<and> render ts = s"
proof (induction "length s" arbitrary: s rule: less_induct)
  case less
  show ?case
  proof (cases "scan regex 0 s")
    case Nil
    then have "dollars s = 0" using less.prems by (simp add: string_match_def)
    then have "well_formed [Plain s] \<and> render [Plain s] = s" by (simp add: dollars_0)
    then show ?thesis by blast
  next
    case (Cons mt ms)
    from scan_regex_Cons[OF Cons] obtain pre post where
      s: "s = pre @ mt @ post" "mt \<noteq> []" "hd mt = CHR ''$''" "ms = scan regex 0 post" by blast
    have ph: "is_placeholder mt" using scan_regex_Cons_placeholder[OF Cons] .
    have l: "length post < length s" using s(1,2) by simp
    have "dollars pre + 1 + dollars post = 1 + length ms"
      using less.prems Cons s(1) placeholder_facts(4)[OF ph] by (simp add: string_match_def)
    moreover have "length ms \<le> dollars post" using matches_le_dollars[of post] s(4) by simp
    ultimately have d: "dollars pre = 0" "dollars post = length (string_match regex post)"
      using s(4) by (simp_all add: string_match_def)
    from less.hyps[OF l d(2)] obtain ts where ts: "well_formed ts" "render ts = post" by blast
    have "well_formed (Plain pre # Hole mt # ts) \<and> render (Plain pre # Hole mt # ts) = s"
      using ts d(1) ph s(1) by (simp add: dollars_0)
    then show ?thesis by blast
  qed
qed

lemma index_of_prefix: "h \<noteq> [] \<Longrightarrow> index_of h (h @ rest) = Some 0"
  by (cases h) auto

lemma index_of_render:
  assumes "is_placeholder h"
  shows "well_formed ts \<Longrightarrow>
     (case index_of h (render ts) of
        None \<Rightarrow> fill_first h r ts = ts
      | Some i \<Rightarrow>
          render (fill_first h r ts) = take i (render ts) @ r @ drop (i + length h) (render ts))"
proof (induction ts rule: render.induct)
  case 1
  then show ?case using placeholder_facts(1)[OF assms] by simp
next
  case (2 p ts)
  then have f: "CHR ''$'' \<notin> set p" and w: "well_formed ts" by simp_all
  note sk = index_of_skip_free[OF f placeholder_facts(1,2)[OF assms], of "render ts"]
  show ?case
  proof (cases "index_of h (render ts)")
    case None
    then show ?thesis using 2(1)[OF w] sk by simp
  next
    case (Some i)
    then show ?thesis using 2(1)[OF w] sk by simp
  qed
next
  case (3 h' ts)
  then have ph: "is_placeholder h'" and w: "well_formed ts" by simp_all
  show ?case
  proof (cases "h' = h")
    case True
    then show ?thesis using index_of_prefix[OF placeholder_facts(1)[OF assms], of "render ts"] by simp
  next
    case False
    obtain x tail where h': "h' = x # tail" using placeholder_facts(1)[OF ph] by (cases h') auto
    have f: "CHR ''$'' \<notin> set tail" using placeholder_facts(3)[OF ph] h' by simp
    have np: "take (length h) (h' @ render ts) \<noteq> h"
      using placeholder_prefix[OF ph assms, of "render ts"] False by auto
    have "index_of h (x # tail @ render ts) = map_option Suc (index_of h (tail @ render ts))"
      using np h' by simp
    also have "\<dots> = map_option Suc (map_option (\<lambda>i. length tail + i) (index_of h (render ts)))"
      using index_of_skip_free[OF f placeholder_facts(1,2)[OF assms], of "render ts"] by simp
    finally have i: "index_of h (h' @ render ts)
        = map_option (\<lambda>i. length h' + i) (index_of h (render ts))"
      using h' by (simp add: option.map_comp comp_def)
    show ?thesis
    proof (cases "index_of h (render ts)")
      case None
      then show ?thesis using 3(1)[OF w] i False by simp
    next
      case (Some j)
      then show ?thesis using 3(1)[OF w] i False by simp
    qed
  qed
qed

lemma js_replace_render:
  assumes "is_placeholder h" "well_formed ts" "CHR ''$'' \<notin> set r"
  shows "js_replace (render ts) h r = render (fill_first h r ts)"
  using index_of_render[OF assms(1,2), of r] get_substitution_plain[OF assms(3)]
  by (auto simp: js_replace_def split: option.splits)

lemma js_replace_self:
  "h \<noteq> [] \<Longrightarrow> CHR ''$'' \<notin> set r \<Longrightarrow> js_replace h h r = r"
  using index_of_prefix[of h "[]"] by (simp add: js_replace_def get_substitution_plain)

lemma fill_first_facts:
  "well_formed ts \<Longrightarrow> CHR ''$'' \<notin> set r \<Longrightarrow> well_formed (fill_first h r ts)"
  "set (holes (fill_first h r ts)) \<subseteq> set (holes ts)"
  "length (holes (fill_first h r ts)) \<le> length (holes ts)"
  "h \<in> set (holes ts) \<Longrightarrow> length (holes (fill_first h r ts)) < length (holes ts)"
  "e \<noteq> h \<Longrightarrow> e \<in> set (holes ts) \<Longrightarrow> e \<in> set (holes (fill_first h r ts))"
  by (induction h r ts rule: fill_first.induct) auto

subsection \<open>The env pattern after a successful test\<close>

lemma search_from_dollar_free:
  assumes "CHR ''$'' \<notin> set t"
  shows "search_from envRegex t i = None"
proof (rule search_from_None, intro allI impI)
  fix j assume "j \<le> length t"
  have "drop j t = [] \<or> hd (drop j t) \<noteq> CHR ''$''"
  proof (cases "drop j t")
    case Nil
    then show ?thesis by simp
  next
    case (Cons a as)
    then have "a \<in> set t" by (metis in_set_dropD list.set_intros(1))
    then show ?thesis using assms Cons by auto
  qed
  then show "match_here envRegex (drop j t) = None" by (rule env_pattern_needs_dollar)
qed

lemma env_test_later:
  assumes "is_placeholder h" "0 < k"
  shows "regex_test envRegex k h = (False, 0)"
proof -
  obtain x tail where h: "h = x # tail" using placeholder_facts(1)[OF assms(1)] by (cases h) auto
  obtain k' where k: "k = Suc k'" using assms(2) by (cases k) auto
  have "CHR ''$'' \<notin> set tail" using placeholder_facts(3)[OF assms(1)] h by simp
  then have "CHR ''$'' \<notin> set (drop k' tail)" by (meson in_set_dropD)
  from search_from_dollar_free[OF this] show ?thesis
    by (simp add: regex_test_def h k)
qed

subsection \<open>An undefined environment variable\<close>

lemma for_matches_sls_step:
  assumes "regex_test slsStageRegex (slsStageLastIndex st) h = (True, l)"
  shows "for_matches env stg val (h # rest) st (JStr nv)
           = for_matches env stg val rest (st\<lparr>slsStageLastIndex := l, variableResolved := True\<rparr>)
               (JStr (js_replace nv h stg))"
  using assms by (simp add: Let_def)

lemma for_matches_unknown_step:
  assumes "regex_test slsStageRegex (slsStageLastIndex st) h = (False, l1)"
    and "regex_test envRegex (envLastIndex st) h = (False, l2)"
  shows "for_matches env stg val (h # rest) st nv
           = for_matches env stg val rest
               (st\<lparr>slsStageLastIndex := l1, envLastIndex := l2,
                   unrecognizedVariableSources :=
                     set_add (element_text (split_on (CHR '':'') (drop 2 h)) 0)
                       (unrecognizedVariableSources st)\<rparr>) nv"
  using assms by (simp add: Let_def)

lemma for_matches_env_step:
  assumes "regex_test slsStageRegex (slsStageLastIndex st) h = (False, l1)"
    and "regex_test envRegex (envLastIndex st) h = (True, l2)"
    and "env (element_text (referencedPropertyPath h) 1) = Some (Variable v)"
  shows "for_matches env stg val (h # rest) st nv
           = for_matches env stg val rest
               (st\<lparr>slsStageLastIndex := l1, envLastIndex := l2, variableResolved := True\<rparr>)
               (JStr (if h = val then v else js_replace val h v))"
  using assms by (simp add: Let_def)

lemma for_matches_missing_step:
  assumes "regex_test slsStageRegex (slsStageLastIndex st) h = (False, l1)"
    and "regex_test envRegex (envLastIndex st) h = (True, l2)"
    and "env (element_text (referencedPropertyPath h) 1) = None"
  shows "for_matches env stg val (h # rest) st nv
           = Inl (cannot_find_environment_variable (element_text (referencedPropertyPath h) 1))"
  using assms by (simp add: Let_def)

lemma keeps_hole_refl: "well_formed ts \<Longrightarrow> keeps_hole e ts ts"
  by (simp add: keeps_hole_def)

lemma keeps_hole_fill:
  assumes "keeps_hole e ts tn" "CHR ''$'' \<notin> set r" "h \<noteq> e"
  shows "keeps_hole e ts (fill_first h r tn)"
    "length (holes (fill_first h r tn)) \<le> length (holes tn)"
  using assms fill_first_facts(1)[of tn r h] fill_first_facts(2,3)[of h r tn]
    fill_first_facts(5)[of e h tn r]
  by (auto simp: keeps_hole_def)

lemma keeps_hole_reset:
  assumes "well_formed ts" "CHR ''$'' \<notin> set r" "h \<noteq> e" "h \<in> set (holes ts)"
  shows "keeps_hole e ts (fill_first h r ts)"
    "length (holes (fill_first h r ts)) < length (holes ts)"
  using keeps_hole_fill(1)[OF keeps_hole_refl[OF assms(1)] assms(2,3)]
    fill_first_facts(4)[OF assms(4), of r]
  by simp_all

lemma for_matches_undefined:
  assumes V: "V \<noteq> []" "\<forall>c \<in> set V. is_name_char c" "env V = None"
    and stg: "CHR ''$'' \<notin> set stg"
    and wf: "well_formed ts"
  shows "\<lbrakk>\<forall>h \<in> set rest. h \<in> set (holes ts)
              \<and> (env_pattern_accepts h \<longrightarrow> h = env_placeholder V \<or> refers_to_plain_variable env h);
          keeps_hole (env_placeholder V) ts tn;
          envLastIndex st \<noteq> 0 \<longrightarrow>
            variableResolved st \<and> (d \<or> length (holes tn) < length (holes ts))\<rbrakk>
     \<Longrightarrow> for_matches env stg (render ts) rest st (JStr (render tn))
            = Inl (cannot_find_environment_variable V)
        \<or> (\<exists>st' tn'. for_matches env stg (render ts) rest st (JStr (render tn))
                        = Inr (st', JStr (render tn'))
             \<and> keeps_hole (env_placeholder V) ts tn'
             \<and> (length (holes tn) < length (holes ts) \<longrightarrow> length (holes tn') < length (holes ts))
             \<and> (variableResolved st \<longrightarrow> variableResolved st')
             \<and> (envLastIndex st' \<noteq> 0 \<or> env_placeholder V \<in> set rest \<longrightarrow>
                  variableResolved st' \<and> (d \<or> length (holes tn') < length (holes ts))))"
proof (induction rest arbitrary: st tn)
  case Nil
  then show ?case by auto
next
  case (Cons h rest)
  let ?E = "env_placeholder V"
  let ?H = "length (holes ts)"
  have hin: "h \<in> set (holes ts)" using Cons.prems(1) by simp
  have ph: "is_placeholder h" using holes_placeholder[OF wf hin] .
  have rest: "\<forall>h \<in> set rest. h \<in> set (holes ts)
              \<and> (env_pattern_accepts h \<longrightarrow> h = ?E \<or> refers_to_plain_variable env h)"
    using Cons.prems(1) by simp
  have wtn: "well_formed tn" using Cons.prems(2) by (simp add: keeps_hole_def)
  obtain b1 l1 where t1: "regex_test slsStageRegex (slsStageLastIndex st) h = (b1, l1)"
    by (cases "regex_test slsStageRegex (slsStageLastIndex st) h") auto
  show ?case
  proof (cases b1)
    case True
    have t1T: "regex_test slsStageRegex (slsStageLastIndex st) h = (True, l1)"
      using t1 True by simp
    have ne: "h \<noteq> ?E"
      using sls_test_on_env_placeholder[OF V(2), of "slsStageLastIndex st"] t1 True by auto
    define tn1 where "tn1 = fill_first h stg tn"
    define st1 where "st1 = st\<lparr>slsStageLastIndex := l1, variableResolved := True\<rparr>"
    have k1: "keeps_hole ?E ts tn1" and le1: "length (holes tn1) \<le> length (holes tn)"
      using keeps_hole_fill[OF Cons.prems(2) stg ne] by (simp_all add: tn1_def)
    have step: "for_matches env stg (render ts) (h # rest) st (JStr (render tn))
                  = for_matches env stg (render ts) rest st1 (JStr (render tn1))"
      using for_matches_sls_step[OF t1T] js_replace_render[OF ph wtn stg]
      by (simp add: st1_def tn1_def)
    have inv1: "envLastIndex st1 \<noteq> 0 \<longrightarrow>
            variableResolved st1 \<and> (d \<or> length (holes tn1) < ?H)"
      using Cons.prems(3) le1 by (auto simp: st1_def)
    from Cons.IH[OF rest k1 inv1]
    show ?thesis
    proof
      assume "for_matches env stg (render ts) rest st1 (JStr (render tn1))
                = Inl (cannot_find_environment_variable V)"
      then show ?thesis using step by simp
    next
      assume "\<exists>st' tn'. for_matches env stg (render ts) rest st1 (JStr (render tn1))
                        = Inr (st', JStr (render tn'))
             \<and> keeps_hole ?E ts tn'
             \<and> (length (holes tn1) < ?H \<longrightarrow> length (holes tn') < ?H)
             \<and> (variableResolved st1 \<longrightarrow> variableResolved st')
             \<and> (envLastIndex st' \<noteq> 0 \<or> ?E \<in> set rest \<longrightarrow>
                  variableResolved st' \<and> (d \<or> length (holes tn') < ?H))"
      then obtain st' tn' where r:
        "for_matches env stg (render ts) rest st1 (JStr (render tn1)) = Inr (st', JStr (render tn'))"
        "keeps_hole ?E ts tn'"
        "length (holes tn1) < ?H \<longrightarrow> length (holes tn') < ?H"
        "variableResolved st1 \<longrightarrow> variableResolved st'"
        "envLastIndex st' \<noteq> 0 \<or> ?E \<in> set rest \<longrightarrow>
                  variableResolved st' \<and> (d \<or> length (holes tn') < ?H)"
        by blast
      have a: "length (holes tn) < ?H \<longrightarrow> length (holes tn') < ?H" using r(3) le1 by auto
      have b: "variableResolved st \<longrightarrow> variableResolved st'" using r(4) by (simp add: st1_def)
      have c: "envLastIndex st' \<noteq> 0 \<or> ?E \<in> set (h # rest) \<longrightarrow>
                  variableResolved st' \<and> (d \<or> length (holes tn') < ?H)"
        using r(5) ne by auto
      have full: "for_matches env stg (render ts) (h # rest) st (JStr (render tn))
                     = Inr (st', JStr (render tn'))"
        using step r(1) by simp
      show ?thesis using full r(2) a b c by blast
    qed
  next
    case False
    have t1': "regex_test slsStageRegex (slsStageLastIndex st) h = (False, 0)"
      using regex_test_False[of slsStageRegex "slsStageLastIndex st" h] t1 False by simp
    obtain b2 l2 where t2: "regex_test envRegex (envLastIndex st) h = (b2, l2)"
      by (cases "regex_test envRegex (envLastIndex st) h") auto
    show ?thesis
    proof (cases b2)
      case False
      have t2': "regex_test envRegex (envLastIndex st) h = (False, 0)"
        using regex_test_False[of envRegex "envLastIndex st" h] t2 False by simp
      define st2 where "st2 = st\<lparr>slsStageLastIndex := 0, envLastIndex := 0,
                   unrecognizedVariableSources :=
                     set_add (element_text (split_on (CHR '':'') (drop 2 h)) 0)
                       (unrecognizedVariableSources st)\<rparr>"
      have step: "for_matches env stg (render ts) (h # rest) st (JStr (render tn))
                  = for_matches env stg (render ts) rest st2 (JStr (render tn))"
        using for_matches_unknown_step[OF t1' t2'] by (simp add: st2_def)
      have inv2: "envLastIndex st2 \<noteq> 0 \<longrightarrow>
            variableResolved st2 \<and> (d \<or> length (holes tn) < ?H)"
        by (simp add: st2_def)
      have slipped: "h = ?E \<longrightarrow> variableResolved st \<and> (d \<or> length (holes tn) < ?H)"
      proof
        assume e: "h = ?E"
        have "envLastIndex st \<noteq> 0"
        proof
          assume "envLastIndex st = 0"
          then show False using env_test_on_env_placeholder[OF V(1,2)] t2' e by simp
        qed
        then show "variableResolved st \<and> (d \<or> length (holes tn) < ?H)"
          using Cons.prems(3) by simp
      qed
      from Cons.IH[OF rest Cons.prems(2) inv2]
      show ?thesis
      proof
        assume "for_matches env stg (render ts) rest st2 (JStr (render tn))
                  = Inl (cannot_find_environment_variable V)"
        then show ?thesis using step by simp
      next
        assume "\<exists>st' tn'. for_matches env stg (render ts) rest st2 (JStr (render tn))
                        = Inr (st', JStr (render tn'))
             \<and> keeps_hole ?E ts tn'
             \<and> (length (holes tn) < ?H \<longrightarrow> length (holes tn') < ?H)
             \<and> (variableResolved st2 \<longrightarrow> variableResolved st')
             \<and> (envLastIndex st' \<noteq> 0 \<or> ?E \<in> set rest \<longrightarrow>
                  variableResolved st' \<and> (d \<or> length (holes tn') < ?H))"
        then obtain st' tn' where r:
          "for_matches env stg (render ts) rest st2 (JStr (render tn)) = Inr (st', JStr (render tn'))"
          "keeps_hole ?E ts tn'"
          "length (holes tn) < ?H \<longrightarrow> length (holes tn') < ?H"
          "variableResolved st2 \<longrightarrow> variableResolved st'"
          "envLastIndex st' \<noteq> 0 \<or> ?E \<in> set rest \<longrightarrow>
                  variableResolved st' \<and> (d \<or> length (holes tn') < ?H)"
          by blast
        have b: "variableResolved st \<longrightarrow> variableResolved st'" using r(4) by (simp add: st2_def)
        have c: "envLastIndex st' \<noteq> 0 \<or> ?E \<in> set (h # rest) \<longrightarrow>
                  variableResolved st' \<and> (d \<or> length (holes tn') < ?H)"
          using r(3,5) b slipped by auto
        have full: "for_matches env stg (render ts) (h # rest) st (JStr (render tn))
                     = Inr (st', JStr (render tn'))"
        using step r(1) by simp
      show ?thesis using full r(2,3) b c by blast
      qed
    next
      case True
      have t2T: "regex_test envRegex (envLastIndex st) h = (True, l2)"
        using t2 True by simp
      have el: "envLastIndex st = 0"
      proof (rule ccontr)
        assume "envLastIndex st \<noteq> 0"
        then show False using env_test_later[OF ph, of "envLastIndex st"] t2 True by simp
      qed
      then have acc: "env_pattern_accepts h" using t2 True by (simp add: env_pattern_accepts_def)
      show ?thesis
      proof (cases "h = ?E")
        case True
        have "for_matches env stg (render ts) (h # rest) st (JStr (render tn))
                = Inl (cannot_find_environment_variable V)"
          using for_matches_missing_step[where env = env, OF t1' t2T]
            env_placeholder_name[OF V(2)] V(3) True
          by simp
        then show ?thesis by simp
      next
        case ne: False
        have "refers_to_plain_variable env h" using Cons.prems(1) acc ne by simp
        then obtain v where v: "env (element_text (referencedPropertyPath h) 1) = Some (Variable v)"
          "CHR ''$'' \<notin> set v"
          by (auto simp: refers_to_plain_variable_def split: option.splits env_value.splits)
        define tn1 where "tn1 = fill_first h v ts"
        define st2 where "st2 = st\<lparr>slsStageLastIndex := 0, envLastIndex := l2, variableResolved := True\<rparr>"
        have k1: "keeps_hole ?E ts tn1" and lt1: "length (holes tn1) < ?H"
          using keeps_hole_reset[OF wf v(2) ne hin] by (simp_all add: tn1_def)
        have rp: "js_replace (render ts) h v = render tn1"
          using js_replace_render[OF ph wf v(2)] by (simp add: tn1_def)
        have "h = render ts \<Longrightarrow> render tn1 = v"
          using rp js_replace_self[OF placeholder_facts(1)[OF ph] v(2)] by simp
        then have nv: "(if h = render ts then v else js_replace (render ts) h v) = render tn1"
          using rp by auto
        have step: "for_matches env stg (render ts) (h # rest) st (JStr (render tn))
                  = for_matches env stg (render ts) rest st2 (JStr (render tn1))"
          using for_matches_env_step[where env = env, OF t1' t2T v(1)] nv
          by (simp add: st2_def)
        have inv2: "envLastIndex st2 \<noteq> 0 \<longrightarrow>
            variableResolved st2 \<and> (d \<or> length (holes tn1) < ?H)"
          using lt1 by (simp add: st2_def)
        from Cons.IH[OF rest k1 inv2]
        show ?thesis
        proof
          assume "for_matches env stg (render ts) rest st2 (JStr (render tn1))
                  = Inl (cannot_find_environment_variable V)"
          then show ?thesis using step by simp
        next
          assume "\<exists>st' tn'. for_matches env stg (render ts) rest st2 (JStr (render tn1))
                        = Inr (st', JStr (render tn'))
             \<and> keeps_hole ?E ts tn'
             \<and> (length (holes tn1) < ?H \<longrightarrow> length (holes tn') < ?H)
             \<and> (variableResolved st2 \<longrightarrow> variableResolved st')
             \<and> (envLastIndex st' \<noteq> 0 \<or> ?E \<in> set rest \<longrightarrow>
                  variableResolved st' \<and> (d \<or> length (holes tn') < ?H))"
          then obtain st' tn' where r:
            "for_matches env stg (render ts) rest st2 (JStr (render tn1)) = Inr (st', JStr (render tn'))"
            "keeps_hole ?E ts tn'"
            "length (holes tn1) < ?H \<longrightarrow> length (holes tn') < ?H"
            "variableResolved st2 \<longrightarrow> variableResolved st'"
            by blast
          have s: "length (holes tn') < ?H" using r(3) lt1 by simp
          have b: "variableResolved st'" using r(4) by (simp add: st2_def)
          have full: "for_matches env stg (render ts) (h # rest) st (JStr (render tn))
                     = Inr (st', JStr (render tn'))"
        using step r(1) by simp
      show ?thesis using full r(2) s b by blast
        qed
      qed
    qed
  qed
qed

lemma visit_string_undefined:
  assumes V: "V \<noteq> []" "\<forall>c \<in> set V. is_name_char c" "env V = None"
    and stg: "CHR ''$'' \<notin> set stg"
    and wf: "dollars s = length (string_match regex s)"
    and res: "\<forall>m \<in> set (string_match regex s).
                env_pattern_accepts m \<longrightarrow> m = env_placeholder V \<or> refers_to_plain_variable env m"
    and inv: "envLastIndex st \<noteq> 0 \<longrightarrow> variableResolved st \<and> d"
  shows "visit_string env stg st s = Inl (cannot_find_environment_variable V)
     \<or> (\<exists>st' s'. visit_string env stg st s = Inr (st', JStr s')
           \<and> dollars s' = length (string_match regex s')
           \<and> set (string_match regex s') \<subseteq> set (string_match regex s)
           \<and> (env_placeholder V \<in> set (string_match regex s)
                \<longrightarrow> env_placeholder V \<in> set (string_match regex s'))
           \<and> length (string_match regex s') \<le> length (string_match regex s)
           \<and> (variableResolved st \<longrightarrow> variableResolved st')
           \<and> (envLastIndex st' \<noteq> 0 \<or> env_placeholder V \<in> set (string_match regex s) \<longrightarrow>
                variableResolved st'
                \<and> (d \<or> length (string_match regex s') < length (string_match regex s))))"
proof -
  let ?E = "env_placeholder V"
  from tokenize[OF wf] obtain ts where ts: "well_formed ts" "render ts = s" by blast
  have m: "string_match regex s = holes ts" using string_match_render[OF ts(1)] ts(2) by simp
  have v: "visit_string env stg st s = for_matches env stg (render ts) (holes ts) st (JStr (render ts))"
    using visit_string_for_matches[of env stg st s] m ts(2) by simp
  have a: "\<forall>h \<in> set (holes ts). h \<in> set (holes ts)
              \<and> (env_pattern_accepts h \<longrightarrow> h = ?E \<or> refers_to_plain_variable env h)"
    using res m by simp
  have b: "envLastIndex st \<noteq> 0 \<longrightarrow>
            variableResolved st \<and> (d \<or> length (holes ts) < length (holes ts))"
    using inv by simp
  from for_matches_undefined[where env = env, OF V stg ts(1) a keeps_hole_refl[OF ts(1)] b]
  show ?thesis
  proof
    assume "for_matches env stg (render ts) (holes ts) st (JStr (render ts))
              = Inl (cannot_find_environment_variable V)"
    then show ?thesis using v by simp
  next
    assume "\<exists>st' tn'. for_matches env stg (render ts) (holes ts) st (JStr (render ts))
                        = Inr (st', JStr (render tn'))
             \<and> keeps_hole ?E ts tn'
             \<and> (length (holes ts) < length (holes ts) \<longrightarrow> length (holes tn') < length (holes ts))
             \<and> (variableResolved st \<longrightarrow> variableResolved st')
             \<and> (envLastIndex st' \<noteq> 0 \<or> ?E \<in> set (holes ts) \<longrightarrow>
                  variableResolved st' \<and> (d \<or> length (holes tn') < length (holes ts)))"
    then obtain st' tn' where r:
      "for_matches env stg (render ts) (holes ts) st (JStr (render ts)) = Inr (st', JStr (render tn'))"
      "keeps_hole ?E ts tn'"
      "variableResolved st \<longrightarrow> variableResolved st'"
      "envLastIndex st' \<noteq> 0 \<or> ?E \<in> set (holes ts) \<longrightarrow>
                  variableResolved st' \<and> (d \<or> length (holes tn') < length (holes ts))"
      by blast
    have w: "well_formed tn'" using r(2) by (simp add: keeps_hole_def)
    have m': "string_match regex (render tn') = holes tn'" using string_match_render[OF w] .
    have d': "dollars (render tn') = length (string_match regex (render tn'))"
      using dollars_render[OF w] m' by simp
    have k: "set (holes tn') \<subseteq> set (holes ts)" "?E \<in> set (holes ts) \<longrightarrow> ?E \<in> set (holes tn')"
      "length (holes tn') \<le> length (holes ts)"
      using r(2) by (simp_all add: keeps_hole_def)
    have vs: "visit_string env stg st s = Inr (st', JStr (render tn'))" using v r(1) by simp
    have "visit_string env stg st s = Inr (st', JStr (render tn'))
           \<and> dollars (render tn') = length (string_match regex (render tn'))
           \<and> set (string_match regex (render tn')) \<subseteq> set (string_match regex s)
           \<and> (env_placeholder V \<in> set (string_match regex s)
                \<longrightarrow> env_placeholder V \<in> set (string_match regex (render tn')))
           \<and> length (string_match regex (render tn')) \<le> length (string_match regex s)
           \<and> (variableResolved st \<longrightarrow> variableResolved st')
           \<and> (envLastIndex st' \<noteq> 0 \<or> env_placeholder V \<in> set (string_match regex s) \<longrightarrow>
                variableResolved st'
                \<and> (d \<or> length (string_match regex (render tn')) < length (string_match regex s)))"
      using vs d' k r(3,4) by (simp add: m m')
    then show ?thesis by blast
  qed
qed

lemma visit_all_undefined:
  assumes V: "V \<noteq> []" "\<forall>c \<in> set V. is_name_char c" "env V = None"
    and stg: "CHR ''$'' \<notin> set stg"
  shows "\<lbrakk>\<forall>s \<in> set ss. dollars s = length (string_match regex s);
          \<forall>m \<in> set (concat (map (string_match regex) ss)).
             env_pattern_accepts m \<longrightarrow> m = env_placeholder V \<or> refers_to_plain_variable env m;
          envLastIndex st \<noteq> 0 \<longrightarrow> variableResolved st \<and> d\<rbrakk>
     \<Longrightarrow> visit_all env stg st ss = Inl (cannot_find_environment_variable V)
        \<or> (\<exists>st' ss'. visit_all env stg st ss = Inr (st', map JStr ss')
             \<and> (\<forall>s \<in> set ss'. dollars s = length (string_match regex s))
             \<and> set (concat (map (string_match regex) ss')) \<subseteq> set (concat (map (string_match regex) ss))
             \<and> (env_placeholder V \<in> set (concat (map (string_match regex) ss))
                  \<longrightarrow> env_placeholder V \<in> set (concat (map (string_match regex) ss')))
             \<and> length (concat (map (string_match regex) ss'))
                  \<le> length (concat (map (string_match regex) ss))
             \<and> (variableResolved st \<longrightarrow> variableResolved st')
             \<and> (envLastIndex st' \<noteq> 0 \<or> env_placeholder V \<in> set (concat (map (string_match regex) ss))
                  \<longrightarrow> variableResolved st'
                      \<and> (d \<or> length (concat (map (string_match regex) ss'))
                                < length (concat (map (string_match regex) ss)))))"
proof (induction ss arbitrary: st d)
  case Nil
  then show ?case by simp
next
  case (Cons s ss)
  let ?E = "env_placeholder V"
  let ?m = "string_match regex"
  let ?M = "\<lambda>ss. concat (map (string_match regex) ss)"
  have wf: "dollars s = length (?m s)" using Cons.prems(1) by simp
  have res: "\<forall>m \<in> set (?m s). env_pattern_accepts m \<longrightarrow> m = ?E \<or> refers_to_plain_variable env m"
    using Cons.prems(2) by simp
  from visit_string_undefined[where env = env, OF V stg wf res Cons.prems(3)]
  show ?case
  proof
    assume "visit_string env stg st s = Inl (cannot_find_environment_variable V)"
    then show ?thesis by simp
  next
    assume "\<exists>st' s'. visit_string env stg st s = Inr (st', JStr s')
           \<and> dollars s' = length (?m s')
           \<and> set (?m s') \<subseteq> set (?m s)
           \<and> (?E \<in> set (?m s) \<longrightarrow> ?E \<in> set (?m s'))
           \<and> length (?m s') \<le> length (?m s)
           \<and> (variableResolved st \<longrightarrow> variableResolved st')
           \<and> (envLastIndex st' \<noteq> 0 \<or> ?E \<in> set (?m s) \<longrightarrow>
                variableResolved st' \<and> (d \<or> length (?m s') < length (?m s)))"
    then obtain st1 s' where l:
      "visit_string env stg st s = Inr (st1, JStr s')"
      "dollars s' = length (?m s')"
      "set (?m s') \<subseteq> set (?m s)"
      "?E \<in> set (?m s) \<longrightarrow> ?E \<in> set (?m s')"
      "length (?m s') \<le> length (?m s)"
      "variableResolved st \<longrightarrow> variableResolved st1"
      "envLastIndex st1 \<noteq> 0 \<or> ?E \<in> set (?m s) \<longrightarrow>
                variableResolved st1 \<and> (d \<or> length (?m s') < length (?m s))"
      by blast
    define d1 where "d1 = (d \<or> length (?m s') < length (?m s))"
    have wfs: "\<forall>s \<in> set ss. dollars s = length (?m s)" using Cons.prems(1) by simp
    have ress: "\<forall>m \<in> set (?M ss). env_pattern_accepts m \<longrightarrow> m = ?E \<or> refers_to_plain_variable env m"
      using Cons.prems(2) by simp
    have inv1: "envLastIndex st1 \<noteq> 0 \<longrightarrow> variableResolved st1 \<and> d1"
      using l(7) by (simp add: d1_def)
    from Cons.IH[OF wfs ress inv1]
    show ?thesis
    proof
      assume "visit_all env stg st1 ss = Inl (cannot_find_environment_variable V)"
      then show ?thesis using l(1) by simp
    next
      assume "\<exists>st' ss'. visit_all env stg st1 ss = Inr (st', map JStr ss')
             \<and> (\<forall>s \<in> set ss'. dollars s = length (?m s))
             \<and> set (?M ss') \<subseteq> set (?M ss)
             \<and> (?E \<in> set (?M ss) \<longrightarrow> ?E \<in> set (?M ss'))
             \<and> length (?M ss') \<le> length (?M ss)
             \<and> (variableResolved st1 \<longrightarrow> variableResolved st')
             \<and> (envLastIndex st' \<noteq> 0 \<or> ?E \<in> set (?M ss)
                  \<longrightarrow> variableResolved st' \<and> (d1 \<or> length (?M ss') < length (?M ss)))"
      then obtain st' ss' where i:
        "visit_all env stg st1 ss = Inr (st', map JStr ss')"
        "\<forall>s \<in> set ss'. dollars s = length (?m s)"
        "set (?M ss') \<subseteq> set (?M ss)"
        "?E \<in> set (?M ss) \<longrightarrow> ?E \<in> set (?M ss')"
        "length (?M ss') \<le> length (?M ss)"
        "variableResolved st1 \<longrightarrow> variableResolved st'"
        "envLastIndex st' \<noteq> 0 \<or> ?E \<in> set (?M ss)
                  \<longrightarrow> variableResolved st' \<and> (d1 \<or> length (?M ss') < length (?M ss))"
        by blast
      have c1: "visit_all env stg st (s # ss) = Inr (st', map JStr (s' # ss'))"
        using l(1) i(1) by simp
      have c2: "\<forall>s \<in> set (s' # ss'). dollars s = length (?m s)" using l(2) i(2) by simp
      have c3: "set (?M (s' # ss')) \<subseteq> set (?M (s # ss))" using l(3) i(3) by auto
      have c4: "?E \<in> set (?M (s # ss)) \<longrightarrow> ?E \<in> set (?M (s' # ss'))" using l(4) i(4) by auto
      have c5: "length (?M (s' # ss')) \<le> length (?M (s # ss))" using l(5) i(5) by simp
      have c6: "variableResolved st \<longrightarrow> variableResolved st'" using l(6) i(6) by simp
      have c7: "envLastIndex st' \<noteq> 0 \<or> ?E \<in> set (?M (s # ss))
                  \<longrightarrow> variableResolved st'
                      \<and> (d \<or> length (?M (s' # ss')) < length (?M (s # ss)))"
      proof
        assume a: "envLastIndex st' \<noteq> 0 \<or> ?E \<in> set (?M (s # ss))"
        show "variableResolved st' \<and> (d \<or> length (?M (s' # ss')) < length (?M (s # ss)))"
        proof (cases "envLastIndex st' \<noteq> 0 \<or> ?E \<in> set (?M ss)")
          case True
          then have "variableResolved st'" "d1 \<or> length (?M ss') < length (?M ss)"
            using i(7) by simp_all
          then show ?thesis using l(5) i(5) by (auto simp: d1_def)
        next
          case False
          then have "?E \<in> set (?m s)" using a by auto
          then have "variableResolved st1" "d \<or> length (?m s') < length (?m s)"
            using l(7) by simp_all
          then show ?thesis using i(5,6) by auto
        qed
      qed
      show ?thesis using c1 c2 c3 c4 c5 c6 c7 by blast
    qed
  qed
qed

lemma undefined_env_variable_by_passes:
  assumes V: "V \<noteq> []" "\<forall>c \<in> set V. is_name_char c" "env V = None"
    and stg: "CHR ''$'' \<notin> set stg"
  shows "\<lbrakk>env_placeholder V \<in> set (placeholders cfg);
          \<forall>s \<in> set (strings_of cfg). dollars s = length (string_match regex s);
          \<forall>m \<in> set (placeholders cfg).
             env_pattern_accepts m \<longrightarrow> m = env_placeholder V \<or> refers_to_plain_variable env m\<rbrakk>
     \<Longrightarrow> resolveConfigurationVariables env cfg stg sources
           = Some (Inl (cannot_find_environment_variable V))"
proof (induction "length (placeholders cfg)" arbitrary: cfg sources rule: less_induct)
  case less
  let ?E = "env_placeholder V"
  have inv: "envLastIndex (fresh_pass sources) \<noteq> 0 \<longrightarrow> variableResolved (fresh_pass sources) \<and> False"
    by (simp add: fresh_pass_def)
  from visit_all_undefined[where env = env, OF V stg less.prems(2) less.prems(3)[unfolded placeholders_def] inv]
  show ?case
  proof
    assume "visit_all env stg (fresh_pass sources) (strings_of cfg)
              = Inl (cannot_find_environment_variable V)"
    from walk_error[OF this] show ?thesis
      by (subst resolveConfigurationVariables.simps) simp
  next
    assume "\<exists>st' ss'. visit_all env stg (fresh_pass sources) (strings_of cfg) = Inr (st', map JStr ss')
             \<and> (\<forall>s \<in> set ss'. dollars s = length (string_match regex s))
             \<and> set (concat (map (string_match regex) ss'))
                  \<subseteq> set (concat (map (string_match regex) (strings_of cfg)))
             \<and> (?E \<in> set (concat (map (string_match regex) (strings_of cfg)))
                  \<longrightarrow> ?E \<in> set (concat (map (string_match regex) ss')))
             \<and> length (concat (map (string_match regex) ss'))
                  \<le> length (concat (map (string_match regex) (strings_of cfg)))
             \<and> (variableResolved (fresh_pass sources) \<longrightarrow> variableResolved st')
             \<and> (envLastIndex st' \<noteq> 0
                   \<or> ?E \<in> set (concat (map (string_match regex) (strings_of cfg)))
                  \<longrightarrow> variableResolved st'
                      \<and> (False \<or> length (concat (map (string_match regex) ss'))
                                < length (concat (map (string_match regex) (strings_of cfg)))))"
    then obtain st' ss' where r:
      "visit_all env stg (fresh_pass sources) (strings_of cfg) = Inr (st', map JStr ss')"
      "\<forall>s \<in> set ss'. dollars s = length (string_match regex s)"
      "set (concat (map (string_match regex) ss')) \<subseteq> set (placeholders cfg)"
      "?E \<in> set (placeholders cfg) \<longrightarrow> ?E \<in> set (concat (map (string_match regex) ss'))"
      "envLastIndex st' \<noteq> 0 \<or> ?E \<in> set (placeholders cfg)
                  \<longrightarrow> variableResolved st'
                      \<and> length (concat (map (string_match regex) ss')) < length (placeholders cfg)"
      unfolding placeholders_def by blast
    from walk_result[OF r(1)] obtain cfg' where
      w: "walk env stg (fresh_pass sources) cfg = Inr (st', cfg')" "strings_of cfg' = ss'" by auto
    have p': "placeholders cfg' = concat (map (string_match regex) ss')"
      using w(2) by (simp add: placeholders_def)
    have vr: "variableResolved st'" and lt: "length (placeholders cfg') < length (placeholders cfg)"
      using r(5) less.prems(1) p' by simp_all
    have a: "?E \<in> set (placeholders cfg')" using r(4) less.prems(1) p' by simp
    have b: "\<forall>s \<in> set (strings_of cfg'). dollars s = length (string_match regex s)"
      using r(2) w(2) by simp
    have c: "\<forall>m \<in> set (placeholders cfg').
             env_pattern_accepts m \<longrightarrow> m = ?E \<or> refers_to_plain_variable env m"
      using r(3) less.prems(3) p' by auto
    have "resolveConfigurationVariables env cfg stg sources
            = resolveConfigurationVariables env cfg' stg (unrecognizedVariableSources st')"
      using w(1) vr by (subst resolveConfigurationVariables.simps) simp
    then show ?thesis using less.hyps[OF lt a b c] by simp
  qed
qed

text \<open>C6 (amended). Take a configuration in which every \<open>$\<close> of a string begins a
  placeholder, and which contains \<open>${env:V}\<close>, where \<open>V\<close> is made of word characters and dots
  and \<open>process.env[V]\<close> is \<open>null\<close> or \<open>undefined\<close>: \<open>V\<close> is neither a variable of the
  environment nor the name of a member that \<open>process.env\<close> inherits. Every other placeholder
  that the env pattern accepts refers to a variable defined with a value free of \<open>$\<close>, and
  the stage is free of \<open>$\<close>. Then the resolution fails with the missing-variable error that
  names exactly \<open>V\<close>, wherever \<open>${env:V}\<close> stands: after \<open>${sls:stage}\<close>, after resolvable
  \<open>${env:X}\<close> or after placeholders of other sources, in the same string or in earlier ones,
  whatever number of passes this takes.\<close>

theorem undefined_env_variable_is_named:
  assumes "env_placeholder V \<in> set (placeholders cfg)"
    and "V \<noteq> []" "\<forall>c \<in> set V. is_name_char c" "env V = None"
    and "\<forall>s \<in> set (strings_of cfg). dollars s = length (string_match regex s)"
    and "\<forall>m \<in> set (placeholders cfg).
           env_pattern_accepts m \<longrightarrow> m = env_placeholder V \<or> refers_to_plain_variable env m"
    and "CHR ''$'' \<notin> set stg"
  shows "resolveConfigurationVariables env cfg stg sources
           = Some (Inl (cannot_find_environment_variable V))"
  using undefined_env_variable_by_passes[where env = env, OF assms(2,3,4,7,1,5,6)] .

text \<open>C6 (witness): \<open>${env:MISSING}\<close> after a resolvable \<open>${env:FOO}\<close> in an earlier string and
  after \<open>${sls:stage}\<close> in its own string, before another \<open>${env:FOO}\<close> and an unknown source.
  The first pass does not test \<open>MISSING\<close>; the second one does.\<close>

theorem undefined_env_variable_is_named_witness:
  "resolveConfigurationVariables foo_env
     (JObj [(''a'', JStr ''${env:FOO}''),
            (''b'', JStr ''x-${sls:stage}-${env:MISSING}-${env:FOO}''),
            (''c'', JStr ''${other:x}'')])
     ''dev'' [] = Some (Inl (cannot_find_environment_variable ''MISSING''))"
proof -
  let ?cfg = "JObj [(''a'', JStr ''${env:FOO}''),
            (''b'', JStr ''x-${sls:stage}-${env:MISSING}-${env:FOO}''),
            (''c'', JStr ''${other:x}'')]"
  have a: "env_placeholder ''MISSING'' \<in> set (placeholders ?cfg)" by code_simp
  have b: "''MISSING'' \<noteq> []" by simp
  have c: "\<forall>c \<in> set ''MISSING''. is_name_char c" by code_simp
  have d: "foo_env ''MISSING'' = None" by (simp add: foo_env_def)
  have e: "\<forall>s \<in> set (strings_of ?cfg). dollars s = length (string_match regex s)" by code_simp
  have f: "\<forall>m \<in> set (placeholders ?cfg).
           env_pattern_accepts m \<longrightarrow> m = env_placeholder ''MISSING'' \<or> refers_to_plain_variable foo_env m"
    by code_simp
  have g: "CHR ''$'' \<notin> set ''dev''" by simp
  from undefined_env_variable_is_named[where env = foo_env, OF a b c d e f g] show ?thesis .
qed

lemma self_referring_before_missing_pass:
  "walk self_referring_env ''dev'' (fresh_pass [])
      (JObj [(''a'', JStr ''${env:FOO}''), (''b'', JStr ''${env:MISSING}'')])
     = Inr (\<lparr>slsStageLastIndex = 0, envLastIndex = 0, variableResolved = True,
             unrecognizedVariableSources = [''env'']\<rparr>,
            JObj [(''a'', JStr ''${env:FOO}''), (''b'', JStr ''${env:MISSING}'')])"
  "walk self_referring_env ''dev'' (fresh_pass [''env''])
      (JObj [(''a'', JStr ''${env:FOO}''), (''b'', JStr ''${env:MISSING}'')])
     = Inr (\<lparr>slsStageLastIndex = 0, envLastIndex = 0, variableResolved = True,
             unrecognizedVariableSources = [''env'']\<rparr>,
            JObj [(''a'', JStr ''${env:FOO}''), (''b'', JStr ''${env:MISSING}'')])"
  by code_simp+

lemma self_referring_before_missing_never_returns:
  assumes "resolveConfigurationVariables e c s src = Some y"
  shows "\<not> (e = self_referring_env
            \<and> c = JObj [(''a'', JStr ''${env:FOO}''), (''b'', JStr ''${env:MISSING}'')]
            \<and> s = ''dev'' \<and> (src = [] \<or> src = [''env'']))"
proof (rule resolveConfigurationVariables.raw_induct
    [where P = "\<lambda>e c s src y. \<not> (e = self_referring_env
            \<and> c = JObj [(''a'', JStr ''${env:FOO}''), (''b'', JStr ''${env:MISSING}'')]
            \<and> s = ''dev'' \<and> (src = [] \<or> src = [''env'']))", OF _ assms])
  fix f e c s src and y :: "error + jsvalue"
  assume ih: "\<And>e c s src y. f e c s src = Some y \<Longrightarrow>
      \<not> (e = self_referring_env
            \<and> c = JObj [(''a'', JStr ''${env:FOO}''), (''b'', JStr ''${env:MISSING}'')]
            \<and> s = ''dev'' \<and> (src = [] \<or> src = [''env'']))"
    and body: "(case walk e s (fresh_pass src) c of
      Inl e \<Rightarrow> Some (Inl e)
      | Inr (st, resolvedConfiguration) \<Rightarrow>
          if variableResolved st
          then f e resolvedConfiguration s (unrecognizedVariableSources st)
          else if unrecognizedVariableSources st \<noteq> []
               then Some (Inl (unrecognized_variable_sources (unrecognizedVariableSources st)))
               else Some (Inr resolvedConfiguration)) = Some y"
  show "\<not> (e = self_referring_env
            \<and> c = JObj [(''a'', JStr ''${env:FOO}''), (''b'', JStr ''${env:MISSING}'')]
            \<and> s = ''dev'' \<and> (src = [] \<or> src = [''env'']))"
  proof
    assume a: "e = self_referring_env
            \<and> c = JObj [(''a'', JStr ''${env:FOO}''), (''b'', JStr ''${env:MISSING}'')]
            \<and> s = ''dev'' \<and> (src = [] \<or> src = [''env''])"
    then have "f e c s [''env''] = Some y"
      using body by (auto simp only: self_referring_before_missing_pass) simp_all
    from ih[OF this] a show False by blast
  qed
qed

text \<open>C6 (counterexample). In each of these configurations \<open>${env:B}\<close>, \<open>${env:MISSING}\<close> or
  \<open>${env:toString}\<close> stands for a variable that is not defined, and the resolution does not
  fail with the error that names it. With two undefined variables the error names \<open>A\<close>, the
  first that is tested. After \<open>${env:FOO}\<close> with \<open>FOO\<close> defined as \<open>${env:FOO}\<close>, no pass
  tests \<open>MISSING\<close> and the function never returns. When \<open>${env:dev}\<close> appears once the
  stage has been substituted, the error names \<open>dev\<close>. And \<open>toString\<close> is found on the
  prototype of \<open>process.env\<close>: the string is replaced by the method and the configuration is
  returned.\<close>

theorem second_undefined_variable_not_named:
  "placeholders (JObj [(''a'', JStr ''${env:A}''), (''b'', JStr ''${env:B}'')])
     = [env_placeholder ''A'', env_placeholder ''B'']
   \<and> foo_env ''B'' = None
   \<and> resolveConfigurationVariables foo_env
        (JObj [(''a'', JStr ''${env:A}''), (''b'', JStr ''${env:B}'')]) ''dev'' []
      = Some (Inl (cannot_find_environment_variable ''A''))
   \<and> cannot_find_environment_variable ''A'' \<noteq> cannot_find_environment_variable ''B''
   \<and> self_referring_env ''MISSING'' = None
   \<and> resolveConfigurationVariables self_referring_env
        (JObj [(''a'', JStr ''${env:FOO}''), (''b'', JStr ''${env:MISSING}'')]) ''dev'' []
      = None
   \<and> foo_env ''MISSING'' = None
   \<and> resolveConfigurationVariables foo_env
        (JObj [(''a'', JStr ''${env:FOO}${env:${sls:stage}}''), (''b'', JStr ''${env:MISSING}'')])
        ''dev'' []
      = Some (Inl (cannot_find_environment_variable ''dev''))
   \<and> resolveConfigurationVariables foo_env_with_prototype
        (JObj [(''a'', JStr ''${env:toString}'')]) ''dev'' []
      = Some (Inr (JObj [(''a'', JInherited ''toString'')]))"
proof -
  have a: "placeholders (JObj [(''a'', JStr ''${env:A}''), (''b'', JStr ''${env:B}'')])
     = [env_placeholder ''A'', env_placeholder ''B'']" by code_simp
  have b: "foo_env ''B'' = None" "self_referring_env ''MISSING'' = None" "foo_env ''MISSING'' = None"
    by (simp_all add: foo_env_def self_referring_env_def)
  have c: "resolveConfigurationVariables foo_env
        (JObj [(''a'', JStr ''${env:A}''), (''b'', JStr ''${env:B}'')]) ''dev'' []
      = Some (Inl (cannot_find_environment_variable ''A''))" by code_simp
  have d: "cannot_find_environment_variable ''A'' \<noteq> cannot_find_environment_variable ''B''"
    by code_simp
  have e: "resolveConfigurationVariables self_referring_env
        (JObj [(''a'', JStr ''${env:FOO}''), (''b'', JStr ''${env:MISSING}'')]) ''dev'' []
      = None"
  proof (cases "resolveConfigurationVariables self_referring_env
        (JObj [(''a'', JStr ''${env:FOO}''), (''b'', JStr ''${env:MISSING}'')]) ''dev'' []")
    case None
    then show ?thesis .
  next
    case (Some y)
    from self_referring_before_missing_never_returns[OF Some] show ?thesis by simp
  qed
  have f: "resolveConfigurationVariables foo_env
        (JObj [(''a'', JStr ''${env:FOO}${env:${sls:stage}}''), (''b'', JStr ''${env:MISSING}'')])
        ''dev'' []
      = Some (Inl (cannot_find_environment_variable ''dev''))" by code_simp
  have g: "resolveConfigurationVariables foo_env_with_prototype
        (JObj [(''a'', JStr ''${env:toString}'')]) ''dev'' []
      = Some (Inr (JObj [(''a'', JInherited ''toString'')]))" by code_simp
  show ?thesis using a b c d e f g by simp
qed

end
